theory Spec2Isabelle
  imports Main "HOL-Library.Word"
begin

unbundle bit_operations_syntax

section \<open>Bytes, memory accesses and failures\<close>

text \<open>
  The C code works on \<^verbatim>\<open>uint8_t\<close> buffers through pointers.  A read-only pointer is
  modelled by the list of the bytes that may be read through it (the bytes from the
  pointer to the end of its object); advancing the pointer drops bytes.  Every read is
  checked against that list, so that a read past the end of the object is the value
  \<open>Inl Out_of_bounds\<close> and never an unspecified byte.  An \<^verbatim>\<open>assert\<close> that fails is
  \<open>Inl Assert_failed\<close>.  Sizes (\<^verbatim>\<open>size_t\<close>) are natural numbers: they are bounded by the
  lengths of the buffers, and every subtraction of the source is guarded.
\<close>

type_synonym byte = "8 word"
type_synonym u32 = "32 word"

datatype error = Out_of_bounds | Assert_failed

datatype ('s, 'r) iter = Continue 's | Break 'r

definition load :: "byte list \<Rightarrow> nat \<Rightarrow> nat \<Rightarrow> error + byte list" where
  "load p i n = (if i + n \<le> length p then Inr (take n (drop i p)) else Inl Out_of_bounds)"

definition memcpy :: "byte list \<Rightarrow> nat \<Rightarrow> byte list \<Rightarrow> nat \<Rightarrow> nat \<Rightarrow> error + byte list" where
  "memcpy d i p j n =
     (case load p j n of
        Inl e \<Rightarrow> Inl e
      | Inr bs \<Rightarrow>
          if i + n \<le> length d then Inr (take i d @ bs @ drop (i + n) d)
          else Inl Out_of_bounds)"

section \<open>The word-stuffing codec (word\_stuff.c)\<close>

definition RADIX :: nat where
  "RADIX = 253"

definition MAX_INITIAL_RUN :: nat where
  "MAX_INITIAL_RUN = RADIX - 1"

definition MAX_REMAINING_RUN :: nat where
  "MAX_REMAINING_RUN = RADIX * RADIX - 1"

definition CACHE_LINE_SIZE :: nat where
  "CACHE_LINE_SIZE = 64"

definition CRDB_WORD_STUFF_HEADER_SIZE :: nat where
  "CRDB_WORD_STUFF_HEADER_SIZE = 2"

definition header :: "byte list" where
  "header = [of_nat (RADIX + 1), of_nat RADIX]"

text \<open>
  \<^verbatim>\<open>crdb_word_stuff_header_find(data, num)\<close>: the loop reads the two bytes at
  \<open>i\<close> and \<open>i + 1\<close> for \<open>i < num - 1\<close> and compares them with the header.  The result
  is the offset of the returned pointer from \<open>data\<close>.
\<close>

function header_find_loop :: "byte list \<Rightarrow> nat \<Rightarrow> nat \<Rightarrow> nat \<Rightarrow> error + nat" where
  "header_find_loop data num i num_prefix =
     (if i < num_prefix then
        (case load data i 2 of
           Inl e \<Rightarrow> Inl e
         | Inr actual \<Rightarrow>
             if actual = header then Inr i
             else header_find_loop data num (i + 1) num_prefix)
      else Inr num)"
  by pat_completeness auto
termination
  by (relation "measure (\<lambda>(data, num, i, num_prefix). num_prefix - i)") auto

definition crdb_word_stuff_header_find :: "byte list \<Rightarrow> nat \<Rightarrow> error + nat" where
  "crdb_word_stuff_header_find data num =
     (if num < CRDB_WORD_STUFF_HEADER_SIZE then Inr num
      else header_find_loop data num 0 (num - 1))"

text \<open>
  \<^verbatim>\<open>CRDB_WORD_STUFFED_BOUND\<close> and \<^verbatim>\<open>crdb_word_stuffed_size\<close>.  The function
  asserts that its result is below the static estimate.
\<close>

definition SSIZE_MAX :: nat where
  "SSIZE_MAX = 2 ^ 63 - 1"

definition SIZE_MAX :: nat where
  "SIZE_MAX = 2 ^ 64 - 1"

definition CRDB_WORD_STUFFED_BOUND :: "nat \<Rightarrow> nat" where
  "CRDB_WORD_STUFFED_BOUND in_size =
     CRDB_WORD_STUFF_HEADER_SIZE + in_size
       + CRDB_WORD_STUFF_HEADER_SIZE * (2 + in_size div (253 * 253 - 1))"

definition crdb_word_stuffed_size :: "nat \<Rightarrow> bool \<Rightarrow> error + nat" where
  "crdb_word_stuffed_size in_size with_header =
     (let static_estimate = CRDB_WORD_STUFFED_BOUND in_size;
          ret = in_size
      in if in_size > SSIZE_MAX then Inr SIZE_MAX
         else
           let ret = ret + (if with_header then length header + 1 else 1)
           in if in_size < MAX_INITIAL_RUN then
                (if ret \<le> static_estimate then Inr ret else Inl Assert_failed)
              else
                let in_size = in_size - MAX_INITIAL_RUN;
                    ret = ret + 2 * (1 + in_size div MAX_REMAINING_RUN)
                in if ret \<le> static_estimate then Inr ret else Inl Assert_failed)"

text \<open>
  \<^verbatim>\<open>crdb_word_stuff_header(dst)\<close> writes the two header bytes and returns the advanced
  pointer.  The output pointers of the codec only move forward, over bytes they have just
  written: an output buffer is modelled by the list of the bytes written to it so far
  (\<open>dst[0 .. ret)\<close>), and a write appends to it.
\<close>

definition crdb_word_stuff_header :: "byte list \<Rightarrow> byte list" where
  "crdb_word_stuff_header out = out @ header"

text \<open>
  \<^verbatim>\<open>short_memcpy(dst, src, n)\<close> copies with overlapping fixed-size chunks.  Here
  \<open>w\<close> is the destination window \<open>dst[0 .. n)\<close> before the call and the result is the
  window after it.
\<close>

function short_memcpy_loop :: "byte list \<Rightarrow> byte list \<Rightarrow> nat \<Rightarrow> nat \<Rightarrow> error + byte list" where
  "short_memcpy_loop w p i tail =
     (if i < tail then
        (case memcpy w i p i 8 of
           Inl e \<Rightarrow> Inl e
         | Inr w' \<Rightarrow> short_memcpy_loop w' p (i + 8) tail)
      else Inr w)"
  by pat_completeness auto
termination
  by (relation "measure (\<lambda>(w, p, i, tail). tail - i)") auto

definition short_memcpy :: "byte list \<Rightarrow> byte list \<Rightarrow> nat \<Rightarrow> error + byte list" where
  "short_memcpy w p n =
     (if n \<ge> 8 then
        (let tail = n - 8
         in if n \<ge> CACHE_LINE_SIZE then memcpy w 0 p 0 n
            else
              (case short_memcpy_loop w p 0 tail of
                 Inl e \<Rightarrow> Inl e
               | Inr w1 \<Rightarrow> memcpy w1 tail p tail 8))
      else if n \<ge> 4 then
        (let tail = n - 4
         in case memcpy w 0 p 0 4 of
              Inl e \<Rightarrow> Inl e
            | Inr w1 \<Rightarrow> memcpy w1 tail p tail 4)
      else
        (case (if n AND 2 \<noteq> 0 then memcpy w 0 p 0 2 else Inr w) of
           Inl e \<Rightarrow> Inl e
         | Inr w1 \<Rightarrow> if n AND 1 \<noteq> 0 then memcpy w1 (n - 1) p (n - 1) 1 else Inr w1))"

text \<open>
  A run of \<open>n\<close> literal bytes copied to the output: the window of the \<open>n\<close> bytes after
  the output pointer holds unspecified bytes before the copy (zeros here; lemma
  \<open>short_memcpy_copies\<close> shows that they never matter).
\<close>

definition copy_run :: "byte list \<Rightarrow> byte list \<Rightarrow> nat \<Rightarrow> error + byte list" where
  "copy_run out p n =
     (case short_memcpy (replicate n 0) p n of
        Inl e \<Rightarrow> Inl e
      | Inr w \<Rightarrow> Inr (out @ w))"

definition encode_run_size :: "byte list \<Rightarrow> nat \<Rightarrow> error + byte list" where
  "encode_run_size out distance =
     (if distance \<le> MAX_REMAINING_RUN
      then Inr (out @ [of_nat (distance mod RADIX), of_nat (distance div RADIX)])
      else Inl Assert_failed)"

definition decode_run_size :: "byte list \<Rightarrow> error + nat" where
  "decode_run_size p =
     (case load p 0 2 of
        Inl e \<Rightarrow> Inl e
      | Inr bs \<Rightarrow> Inr (unat (bs ! 0) + RADIX * unat (bs ! 1)))"

text \<open>The local variables of the two codec loops.\<close>

record codec =
  c_ret :: "byte list"
  c_src :: "byte list"
  c_src_size :: nat
  c_first_header :: bool

definition CONSUME :: "nat \<Rightarrow> codec \<Rightarrow> codec" where
  "CONSUME consumed s =
     s\<lparr>c_src := drop consumed (c_src s), c_src_size := c_src_size s - consumed\<rparr>"

text \<open>One iteration of the loop of \<^verbatim>\<open>crdb_word_stuff_encode\<close>.\<close>

definition encode_iter :: "codec \<Rightarrow> error + (codec, byte list) iter" where
  "encode_iter s =
     (let max_run_size = (if c_first_header s then MAX_INITIAL_RUN else MAX_REMAINING_RUN)
      in case crdb_word_stuff_header_find (c_src s) (min max_run_size (c_src_size s)) of
           Inl e \<Rightarrow> Inl e
         | Inr run_size \<Rightarrow>
             (case (if c_first_header s then
                      (if run_size \<le> MAX_INITIAL_RUN
                       then Inr (c_ret s @ [of_nat run_size]) else Inl Assert_failed)
                    else encode_run_size (c_ret s) run_size) of
                Inl e \<Rightarrow> Inl e
              | Inr out1 \<Rightarrow>
                  (case copy_run out1 (c_src s) run_size of
                     Inl e \<Rightarrow> Inl e
                   | Inr out2 \<Rightarrow>
                       let s1 = CONSUME run_size (s\<lparr>c_ret := out2, c_first_header := False\<rparr>)
                       in if run_size < max_run_size then
                            (if c_src_size s1 = 0 then Inr (Break (c_ret s1))
                             else if c_src_size s1 \<ge> CRDB_WORD_STUFF_HEADER_SIZE then
                               (case load (c_src s1) 0 2 of
                                  Inl e \<Rightarrow> Inl e
                                | Inr bs \<Rightarrow>
                                    if bs = header
                                    then Inr (Continue (CONSUME CRDB_WORD_STUFF_HEADER_SIZE s1))
                                    else Inl Assert_failed)
                             else Inl Assert_failed)
                          else Inr (Continue s1))))"

text \<open>
  The decoder returns a pointer past the last byte written, or \<^verbatim>\<open>NULL\<close>; in both
  cases it has written to \<open>dst\<close>.  \<open>Decoded out\<close> is the first case and
  \<open>Rejected out\<close> the \<^verbatim>\<open>return NULL\<close>, where \<open>out\<close> are the bytes written to
  \<open>dst\<close> until then.
\<close>

datatype decoded = Decoded "byte list" | Rejected "byte list"

text \<open>One iteration of the loop of \<^verbatim>\<open>crdb_word_stuff_decode\<close>.\<close>

definition decode_iter :: "codec \<Rightarrow> error + (codec, decoded) iter" where
  "decode_iter s =
     (let max_run_size = (if c_first_header s then MAX_INITIAL_RUN else MAX_REMAINING_RUN);
          hdr = (if c_first_header s then 1 else CRDB_WORD_STUFF_HEADER_SIZE)
      in if c_src_size s < hdr then Inr (Break (Rejected (c_ret s)))
         else
           (case (if c_first_header s
                  then (case load (c_src s) 0 1 of
                          Inl e \<Rightarrow> Inl e | Inr bs \<Rightarrow> Inr (unat (bs ! 0)))
                  else decode_run_size (c_src s)) of
              Inl e \<Rightarrow> Inl e
            | Inr run_size \<Rightarrow>
                let s1 = CONSUME hdr (s\<lparr>c_first_header := False\<rparr>)
                in if c_src_size s1 < run_size \<or> run_size > max_run_size
                   then Inr (Break (Rejected (c_ret s1)))
                   else
                     (case copy_run (c_ret s1) (c_src s1) run_size of
                        Inl e \<Rightarrow> Inl e
                      | Inr out2 \<Rightarrow>
                          let s2 = CONSUME run_size (s1\<lparr>c_ret := out2\<rparr>)
                          in if run_size < max_run_size then
                               (if c_src_size s2 = 0 then Inr (Break (Decoded (c_ret s2)))
                                else if c_src_size s2 < CRDB_WORD_STUFF_HEADER_SIZE
                                then Inr (Break (Rejected (c_ret s2)))
                                else Inr (Continue
                                       (s2\<lparr>c_ret := crdb_word_stuff_header (c_ret s2)\<rparr>)))
                             else Inr (Continue s2))))"

declare header_find_loop.simps [simp del]
declare short_memcpy_loop.simps [simp del]

lemma header_find_loop_le:
  "header_find_loop data num i num_prefix = Inr k \<Longrightarrow> num_prefix \<le> num \<Longrightarrow> k \<le> num"
  by (induction data num i num_prefix rule: header_find_loop.induct)
     (subst (asm) header_find_loop.simps, auto split: if_splits sum.splits)

lemma header_find_le:
  "crdb_word_stuff_header_find data num = Inr k \<Longrightarrow> k \<le> num"
  using header_find_loop_le[of data num 0 "num - 1" k]
  by (auto simp: crdb_word_stuff_header_find_def split: if_splits)

lemma encode_iter_decreases:
  "encode_iter s = Inr (Continue s') \<Longrightarrow> c_src_size s' < c_src_size s"
  by (auto simp: encode_iter_def Let_def CONSUME_def CRDB_WORD_STUFF_HEADER_SIZE_def
        MAX_INITIAL_RUN_def MAX_REMAINING_RUN_def RADIX_def
      split: if_splits sum.splits dest!: header_find_le)

lemma decode_iter_decreases:
  "decode_iter s = Inr (Continue s') \<Longrightarrow> c_src_size s' < c_src_size s"
  by (auto simp: decode_iter_def Let_def CONSUME_def CRDB_WORD_STUFF_HEADER_SIZE_def
        crdb_word_stuff_header_def
      split: if_splits sum.splits)

text \<open>
  The loops: each iteration that continues has consumed at least one byte of the
  source, so both loops end.
\<close>

function encode_loop :: "codec \<Rightarrow> error + byte list" where
  "encode_loop s =
     (case encode_iter s of
        Inl e \<Rightarrow> Inl e
      | Inr (Break r) \<Rightarrow> Inr r
      | Inr (Continue s') \<Rightarrow> encode_loop s')"
  by pat_completeness auto
termination
  by (relation "measure c_src_size") (auto dest: encode_iter_decreases)

function decode_loop :: "codec \<Rightarrow> error + decoded" where
  "decode_loop s =
     (case decode_iter s of
        Inl e \<Rightarrow> Inl e
      | Inr (Break r) \<Rightarrow> Inr r
      | Inr (Continue s') \<Rightarrow> decode_loop s')"
  by pat_completeness auto
termination
  by (relation "measure c_src_size") (auto dest: decode_iter_decreases)

declare encode_loop.simps [simp del]
declare decode_loop.simps [simp del]

text \<open>
  \<^verbatim>\<open>crdb_word_stuff_encode(dst, vsrc, src_size)\<close> returns the bytes written to
  \<open>dst\<close>; so does \<^verbatim>\<open>crdb_word_stuff_decode(dst, vsrc, src_size)\<close>, as
  \<open>Decoded\<close> or \<open>Rejected\<close>.
\<close>

definition crdb_word_stuff_encode :: "byte list \<Rightarrow> nat \<Rightarrow> error + byte list" where
  "crdb_word_stuff_encode vsrc src_size =
     encode_loop \<lparr>c_ret = [], c_src = vsrc, c_src_size = src_size, c_first_header = True\<rparr>"

definition crdb_word_stuff_decode :: "byte list \<Rightarrow> nat \<Rightarrow> error + decoded" where
  "crdb_word_stuff_decode vsrc src_size =
     decode_loop \<lparr>c_ret = [], c_src = vsrc, c_src_size = src_size, c_first_header = True\<rparr>"

section \<open>Properties of the memory primitives and of short\_memcpy\<close>

lemma load_ok [simp]: "i + n \<le> length p \<Longrightarrow> load p i n = Inr (take n (drop i p))"
  by (simp add: load_def)

lemma memcpy_ok:
  "j + n \<le> length p \<Longrightarrow> i + n \<le> length d \<Longrightarrow>
   memcpy d i p j n = Inr (take i d @ take n (drop j p) @ drop (i + n) d)"
  by (simp add: memcpy_def)

lemma take_add_append: "take a p @ take b (drop a p) @ xs = take (a + b) p @ xs"
  by (simp add: take_add)

lemma drop_overwrite:
  "i + n \<le> length w \<Longrightarrow> length bs = n \<Longrightarrow> i + n \<le> m \<Longrightarrow>
   drop m (take i w @ bs @ drop (i + n) w) = drop m w"
  by (simp add: add.commute)

lemma take_overwrite:
  "i \<le> length w \<Longrightarrow> length bs = n \<Longrightarrow> take (i + n) (take i w @ bs @ rest) = take i w @ bs"
  by simp

lemma take_before:
  "m \<le> i \<Longrightarrow> i \<le> length w \<Longrightarrow> take m (take i w @ xs) = take m w"
  by (simp add: min_def)

lemma short_memcpy_loop_copies:
  assumes "take i w = take i p" "i < tail + 8" "tail + 8 \<le> length p" "tail + 8 \<le> length w"
  shows "\<exists>w'. short_memcpy_loop w p i tail = Inr w' \<and> length w' = length w
            \<and> take tail w' = take tail p \<and> drop (tail + 8) w' = drop (tail + 8) w"
  using assms
proof (induction w p i tail rule: short_memcpy_loop.induct)
  case (1 w p i tail)
  show ?case
  proof (cases "i < tail")
    case False
    with "1.prems" have "take tail (take i w) = take tail (take i p)" by simp
    with False show ?thesis
      by (subst short_memcpy_loop.simps) (simp add: min_def)
  next
    case True
    let ?w = "take i w @ take 8 (drop i p) @ drop (i + 8) w"
    have m: "memcpy w i p i 8 = Inr ?w"
      using True "1.prems" by (intro memcpy_ok) auto
    have len: "length ?w = length w" using True "1.prems" by auto
    have "take (i + 8) ?w = take i w @ take 8 (drop i p)"
      using True "1.prems" by (intro take_overwrite) auto
    then have "take (i + 8) ?w = take i p @ take 8 (drop i p)"
      using "1.prems" by simp
    also have "\<dots> = take (i + 8) p"
      by (simp add: take_add)
    finally have pre: "take (i + 8) ?w = take (i + 8) p" .
    from "1.IH"[OF True m pre] True "1.prems" len
    obtain w' where w': "short_memcpy_loop ?w p (i + 8) tail = Inr w'" "length w' = length w"
       "take tail w' = take tail p" "drop (tail + 8) w' = drop (tail + 8) ?w"
      by auto
    have "drop (tail + 8) ?w = drop (tail + 8) w"
      using True "1.prems" by (intro drop_overwrite) auto
    with w' True m show ?thesis
      by (subst short_memcpy_loop.simps) simp
  qed
qed

lemma nat_and_small:
  "n < 4 \<Longrightarrow> (n AND 2 \<noteq> 0 \<longleftrightarrow> n = 2 \<or> n = 3) \<and> (n AND 1 \<noteq> 0 \<longleftrightarrow> n = 1 \<or> n = 3)"
  for n :: nat
proof -
  assume "n < 4"
  then consider "n = 0" | "n = 1" | "n = 2" | "n = 3" by linarith
  then show ?thesis by cases (simp_all add: and_nat_def)
qed

lemma short_memcpy_copies:
  assumes "n \<le> length p" "n \<le> length w"
  shows "short_memcpy w p n = Inr (take n p @ drop n w)"
proof -
  consider "n \<ge> 64" | "8 \<le> n" "n < 64" | "4 \<le> n" "n < 8" | "n < 4" by linarith
  then show ?thesis
  proof cases
    case 1
    then show ?thesis using assms
      by (simp add: short_memcpy_def CACHE_LINE_SIZE_def memcpy_ok)
  next
    case 2
    from short_memcpy_loop_copies[of 0 w p "n - 8"] assms 2
    obtain w' where w': "short_memcpy_loop w p 0 (n - 8) = Inr w'" "length w' = length w"
       "take (n - 8) w' = take (n - 8) p" "drop n w' = drop n w"
      by auto
    have "memcpy w' (n - 8) p (n - 8) 8
            = Inr (take (n - 8) w' @ take 8 (drop (n - 8) p) @ drop (n - 8 + 8) w')"
      using assms 2 w' by (intro memcpy_ok) auto
    moreover have "n - 8 + 8 = n" using 2 by simp
    ultimately show ?thesis using 2 w'
      by (simp add: short_memcpy_def CACHE_LINE_SIZE_def Let_def take_add_append)
  next
    case 3
    let ?w = "take 4 p @ drop 4 w"
    have a: "memcpy w 0 p 0 4 = Inr ?w"
      using assms 3 by (simp add: memcpy_ok)
    have b: "memcpy ?w (n - 4) p (n - 4) 4
            = Inr (take (n - 4) ?w @ take 4 (drop (n - 4) p) @ drop (n - 4 + 4) ?w)"
      using assms 3 by (intro memcpy_ok) auto
    have c: "take (n - 4) ?w = take (n - 4) p"
      using assms 3 take_before[of "n - 4" 4 p "drop 4 w"] by simp
    have d: "drop (n - 4 + 4) ?w = drop n w"
      using assms 3 by simp
    have e: "take (n - 4) p @ take 4 (drop (n - 4) p) @ drop n w = take n p @ drop n w"
      using take_add_append[of "n - 4" p 4] 3 by simp
    have "short_memcpy w p n = memcpy ?w (n - 4) p (n - 4) 4"
      using 3 a by (simp add: short_memcpy_def Let_def)
    then show ?thesis by (simp only: b c d e)
  next
    case 4
    have ands: "(0::nat) AND 2 = 0" "(0::nat) AND 1 = 0" "(1::nat) AND 2 = 0" "(1::nat) AND 1 = 1"
      "(2::nat) AND 2 = 2" "(2::nat) AND 1 = 0" "(3::nat) AND 2 = 2" "(3::nat) AND 1 = 1"
      by simp_all
    from 4 consider "n = 0" | "n = 1" | "n = 2" | "n = 3" by linarith
    then show ?thesis
    proof cases
      case 1 then show ?thesis by (simp add: short_memcpy_def)
    next
      case 2
      then have "short_memcpy w p n = memcpy w 0 p 0 1"
        by (simp add: short_memcpy_def ands split: sum.splits)
      also have "\<dots> = Inr (take 1 p @ drop 1 w)"
        using assms 2 by (simp add: memcpy_def)
      finally show ?thesis using 2 by simp
    next
      case 3
      then have "short_memcpy w p n = memcpy w 0 p 0 2"
        by (simp add: short_memcpy_def ands split: sum.splits)
      also have "\<dots> = Inr (take 2 p @ drop 2 w)"
        using assms 3 by (simp add: memcpy_def numeral_2_eq_2)
      finally show ?thesis using 3 by simp
    next
      case 4
      let ?w = "take 2 p @ drop 2 w"
      have a: "memcpy w 0 p 0 2 = Inr ?w"
        using assms 4 by (simp add: memcpy_def numeral_2_eq_2)
      have b: "memcpy ?w 2 p 2 1 = Inr (take 2 ?w @ take 1 (drop 2 p) @ drop (2 + 1) ?w)"
        using assms 4 by (intro memcpy_ok) auto
      have c: "take 2 ?w = take 2 p" using assms 4 by simp
      have d: "drop (2 + 1) ?w = drop 3 w" using assms 4 by (simp add: numeral_3_eq_3)
      have e: "take 2 p @ take 1 (drop 2 p) @ drop 3 w = take 3 p @ drop 3 w"
        using take_add_append[of 2 p 1] by simp
      have "short_memcpy w p n = memcpy ?w 2 p 2 1"
        using 4 a by (simp add: short_memcpy_def ands split: sum.splits)
      then show ?thesis unfolding 4 by (simp only: b c d e)
    qed
  qed
qed

lemma copy_run_ok: "n \<le> length p \<Longrightarrow> copy_run out p n = Inr (out @ take n p)"
  by (simp add: copy_run_def short_memcpy_copies)

section \<open>Properties of the header search\<close>

definition marker_at :: "byte list \<Rightarrow> nat \<Rightarrow> bool" where
  "marker_at xs i \<longleftrightarrow> take 2 (drop i xs) = header"

definition marker_free :: "byte list \<Rightarrow> bool" where
  "marker_free xs \<longleftrightarrow> (\<forall>i. \<not> marker_at xs i)"

lemma header_bytes: "header = [0xFE, 0xFD]"
  by (simp add: header_def RADIX_def)

lemma marker_at_iff:
  "marker_at xs i \<longleftrightarrow> i + 1 < length xs \<and> xs ! i = 0xFE \<and> xs ! (i + 1) = 0xFD"
proof (cases "i + 1 < length xs")
  case True
  then have "take 2 (drop i xs) = [xs ! i, xs ! (i + 1)]"
    by (simp add: take_Suc_conv_app_nth numeral_2_eq_2)
  with True show ?thesis by (auto simp: marker_at_def header_bytes)
next
  case False
  then have "length (take 2 (drop i xs)) \<noteq> length header"
    by (simp add: header_bytes)
  then have "take 2 (drop i xs) \<noteq> header" by metis
  with False show ?thesis by (simp add: marker_at_def)
qed

lemma marker_at_bound: "marker_at xs i \<Longrightarrow> i + 2 \<le> length xs"
  by (simp add: marker_at_iff)

lemma marker_at_take: "i + 2 \<le> n \<Longrightarrow> marker_at (take n xs) i \<longleftrightarrow> marker_at xs i"
  by (auto simp: marker_at_iff)

lemma marker_at_drop: "marker_at (drop n xs) i \<longleftrightarrow> marker_at xs (n + i)"
  by (simp add: marker_at_def add.commute)


lemma header_find_loop_spec:
  assumes "num_prefix < length data"
  shows "\<exists>k. header_find_loop data num i num_prefix = Inr k
           \<and> (\<forall>j. i \<le> j \<and> j < num_prefix \<and> j < k \<longrightarrow> \<not> marker_at data j)
           \<and> (k = num \<or> (i \<le> k \<and> k < num_prefix \<and> marker_at data k))"
  using assms
proof (induction data num i num_prefix rule: header_find_loop.induct)
  case (1 data num i num_prefix)
  show ?case
  proof (cases "i < num_prefix")
    case False
    then show ?thesis by (subst header_find_loop.simps) auto
  next
    case True
    with "1.prems" have ld: "load data i 2 = Inr (take 2 (drop i data))" by simp
    show ?thesis
    proof (cases "marker_at data i")
      case m: True
      with True ld show ?thesis
        by (subst header_find_loop.simps) (auto simp: marker_at_def)
    next
      case m: False
      then have ne: "take 2 (drop i data) \<noteq> header" by (simp add: marker_at_def)
      from "1.IH"[OF True ld ne "1.prems"]
      obtain k where k: "header_find_loop data num (i + 1) num_prefix = Inr k"
         "\<forall>j. i + 1 \<le> j \<and> j < num_prefix \<and> j < k \<longrightarrow> \<not> marker_at data j"
         "k = num \<or> (i + 1 \<le> k \<and> k < num_prefix \<and> marker_at data k)"
        by blast
      have "\<forall>j. i \<le> j \<and> j < num_prefix \<and> j < k \<longrightarrow> \<not> marker_at data j"
      proof (intro allI impI)
        fix j assume j: "i \<le> j \<and> j < num_prefix \<and> j < k"
        show "\<not> marker_at data j"
        proof (cases "j = i")
          case True with m show ?thesis by simp
        next
          case False with j k(2) show ?thesis by auto
        qed
      qed
      with k True ld ne show ?thesis
        by (subst header_find_loop.simps) auto
    qed
  qed
qed

lemma header_find_spec:
  assumes "num \<le> length data"
  shows "\<exists>k. crdb_word_stuff_header_find data num = Inr k \<and> k \<le> num
           \<and> (\<forall>j. j < k \<and> j + 2 \<le> num \<longrightarrow> \<not> marker_at data j)
           \<and> (k < num \<longrightarrow> k + 2 \<le> num \<and> marker_at data k)"
proof (cases "num < 2")
  case True
  then have r: "crdb_word_stuff_header_find data num = Inr num"
    by (simp add: crdb_word_stuff_header_find_def CRDB_WORD_STUFF_HEADER_SIZE_def)
  have "\<forall>j. j < num \<and> j + 2 \<le> num \<longrightarrow> \<not> marker_at data j"
    using True by auto
  with r show ?thesis by blast
next
  case False
  with assms have "num - 1 < length data" by simp
  from header_find_loop_spec[OF this, of num 0]
  obtain k where kk: "header_find_loop data num 0 (num - 1) = Inr k
     \<and> (\<forall>j. 0 \<le> j \<and> j < num - 1 \<and> j < k \<longrightarrow> \<not> marker_at data j)
     \<and> (k = num \<or> (0 \<le> k \<and> k < num - 1 \<and> marker_at data k))" ..
  note k = conjunct1[OF kk] conjunct1[OF conjunct2[OF kk]] conjunct2[OF conjunct2[OF kk]]
  have a: "\<forall>j. j < k \<and> j + 2 \<le> num \<longrightarrow> \<not> marker_at data j"
    using k(2) by auto
  have r: "crdb_word_stuff_header_find data num = Inr k"
    using k(1) False
    by (simp add: crdb_word_stuff_header_find_def CRDB_WORD_STUFF_HEADER_SIZE_def)
  have le: "k \<le> num" using k(3) by auto
  have m: "k < num \<longrightarrow> k + 2 \<le> num \<and> marker_at data k" using k(3) by auto
  from r le a m show ?thesis by blast
qed

lemma header_find_marker_free:
  "marker_free (take n xs) \<Longrightarrow> n \<le> length xs \<Longrightarrow> crdb_word_stuff_header_find xs n = Inr n"
proof -
  assume mf: "marker_free (take n xs)" and n: "n \<le> length xs"
  from header_find_spec[OF n] obtain k where
    k: "crdb_word_stuff_header_find xs n = Inr k" "k \<le> n" "k < n \<longrightarrow> k + 2 \<le> n \<and> marker_at xs k"
    by blast
  show ?thesis
  proof (cases "k < n")
    case True
    with k have "marker_at (take n xs) k" by (simp add: marker_at_take)
    with mf show ?thesis by (simp add: marker_free_def)
  next
    case False with k show ?thesis by simp
  qed
qed

section \<open>One iteration of the encoder and of the decoder\<close>

definition run_header :: "bool \<Rightarrow> nat \<Rightarrow> byte list" where
  "run_header first k =
     (if first then [of_nat k] else [of_nat (k mod RADIX), of_nat (k div RADIX)])"

definition max_run :: "bool \<Rightarrow> nat" where
  "max_run first = (if first then MAX_INITIAL_RUN else MAX_REMAINING_RUN)"

lemma max_run_simps: "max_run True = 252" "max_run False = 64008"
  by (simp_all add: max_run_def MAX_INITIAL_RUN_def MAX_REMAINING_RUN_def RADIX_def)

lemma length_run_header: "length (run_header first k) = (if first then 1 else 2)"
  by (simp add: run_header_def)

lemma encode_iter_spec:
  assumes wf: "c_src_size s \<le> length (c_src s)"
  shows "\<exists>k. k \<le> max_run (c_first_header s) \<and> k \<le> c_src_size s
          \<and> (\<forall>j. j + 2 \<le> k \<longrightarrow> \<not> marker_at (c_src s) j)
          \<and> encode_iter s =
               (if k < max_run (c_first_header s) \<and> k = c_src_size s
                then Inr (Break (c_ret s @ run_header (c_first_header s) k @ take k (c_src s)))
                else Inr (Continue
                   \<lparr>c_ret = c_ret s @ run_header (c_first_header s) k @ take k (c_src s),
                    c_src = drop (if k < max_run (c_first_header s) then k + 2 else k) (c_src s),
                    c_src_size = c_src_size s - (if k < max_run (c_first_header s) then k + 2 else k),
                    c_first_header = False\<rparr>))
          \<and> (k < max_run (c_first_header s) \<and> k < c_src_size s
                 \<longrightarrow> k + 2 \<le> c_src_size s \<and> marker_at (c_src s) k)"
proof -
  let ?M = "max_run (c_first_header s)"
  let ?num = "min ?M (c_src_size s)"
  have num: "?num \<le> length (c_src s)" using wf by simp
  from header_find_spec[OF num]
  obtain k where kk: "crdb_word_stuff_header_find (c_src s) ?num = Inr k \<and> k \<le> ?num
           \<and> (\<forall>j. j < k \<and> j + 2 \<le> ?num \<longrightarrow> \<not> marker_at (c_src s) j)
           \<and> (k < ?num \<longrightarrow> k + 2 \<le> ?num \<and> marker_at (c_src s) k)" ..
  then have hf: "crdb_word_stuff_header_find (c_src s) ?num = Inr k"
    and le: "k \<le> ?M" "k \<le> c_src_size s"
    and nom: "\<forall>j. j + 2 \<le> k \<longrightarrow> \<not> marker_at (c_src s) j"
    and mk: "k < ?M \<and> k < c_src_size s \<longrightarrow> k + 2 \<le> c_src_size s \<and> marker_at (c_src s) k"
    by auto
  have klen: "k \<le> length (c_src s)" using le wf by simp
  have hdr: "(if c_first_header s then
                 (if k \<le> MAX_INITIAL_RUN
                  then Inr (c_ret s @ [of_nat k]) else Inl Assert_failed)
              else encode_run_size (c_ret s) k) = Inr (c_ret s @ run_header (c_first_header s) k)"
    using le(1) by (cases "c_first_header s") (simp_all add: max_run_def run_header_def encode_run_size_def)
  have cp: "copy_run (c_ret s @ run_header (c_first_header s) k) (c_src s) k
              = Inr ((c_ret s @ run_header (c_first_header s) k) @ take k (c_src s))"
    using klen by (rule copy_run_ok)
  have ld: "k < ?M \<Longrightarrow> k < c_src_size s \<Longrightarrow> load (drop k (c_src s)) 0 2 = Inr header"
  proof -
    assume "k < ?M" "k < c_src_size s"
    with mk have "k + 2 \<le> c_src_size s" "marker_at (c_src s) k" by auto
    with wf show ?thesis by (simp add: marker_at_def)
  qed
  let ?out = "c_ret s @ run_header (c_first_header s) k @ take k (c_src s)"
  have ei: "encode_iter s =
      (if k < ?M then
         (if c_src_size s - k = 0 then Inr (Break ?out)
          else if 2 \<le> c_src_size s - k then
            (case load (drop k (c_src s)) 0 2 of
               Inl e \<Rightarrow> Inl e
             | Inr bs \<Rightarrow>
                 if bs = header
                 then Inr (Continue \<lparr>c_ret = ?out, c_src = drop 2 (drop k (c_src s)),
                        c_src_size = c_src_size s - k - 2, c_first_header = False\<rparr>)
                 else Inl Assert_failed)
          else Inl Assert_failed)
       else Inr (Continue \<lparr>c_ret = ?out, c_src = drop k (c_src s),
                   c_src_size = c_src_size s - k, c_first_header = False\<rparr>))"
    unfolding encode_iter_def max_run_def[symmetric] Let_def hf sum.case hdr cp
    by (simp add: CONSUME_def CRDB_WORD_STUFF_HEADER_SIZE_def split: sum.splits)
  have "encode_iter s =
               (if k < ?M \<and> k = c_src_size s
                then Inr (Break (c_ret s @ run_header (c_first_header s) k @ take k (c_src s)))
                else Inr (Continue
                   \<lparr>c_ret = c_ret s @ run_header (c_first_header s) k @ take k (c_src s),
                    c_src = drop (if k < ?M then k + 2 else k) (c_src s),
                    c_src_size = c_src_size s - (if k < ?M then k + 2 else k),
                    c_first_header = False\<rparr>))"
  proof (cases "k < ?M")
    case False
    then show ?thesis by (simp add: ei)
  next
    case True
    show ?thesis
    proof (cases "k < c_src_size s")
      case e: False
      with le have "k = c_src_size s" by simp
      with True show ?thesis by (simp add: ei)
    next
      case lt: True
      with mk True have "k + 2 \<le> c_src_size s" by simp
      with True lt ld[OF True lt] show ?thesis
        by (simp add: ei add.commute)
    qed
  qed
  with le nom mk show ?thesis by blast
qed

lemma unat_byte_of_nat: "k < 256 \<Longrightarrow> unat (of_nat k :: byte) = k"
  by (simp add: unat_of_nat)

lemma run_size_digits:
  assumes "k \<le> 64008"
  shows "unat (of_nat (k mod 253) :: byte) + 253 * unat (of_nat (k div 253) :: byte) = k"
proof -
  have "k mod 253 < 256" by (rule less_trans[of _ 253]) simp_all
  moreover have "k div 253 < 256" using assms by simp
  ultimately show ?thesis by (simp add: unat_byte_of_nat)
qed

lemma take_2_nth:
  assumes "2 \<le> length xs"
  shows "take 2 xs = [xs ! 0, xs ! 1]"
proof (cases xs)
  case Nil
  with assms show ?thesis by simp
next
  case (Cons a ys)
  with assms show ?thesis by (cases ys) auto
qed

lemma decode_iter_chunk:
  assumes "length lit = k" "k \<le> max_run f" "n \<le> length rest"
  shows "decode_iter \<lparr>c_ret = acc, c_src = run_header f k @ lit @ rest,
                       c_src_size = length (run_header f k) + k + n, c_first_header = f\<rparr> =
     (if k < max_run f then
        (if n = 0 then Inr (Break (Decoded (acc @ lit)))
         else if n < 2 then Inr (Break (Rejected (acc @ lit)))
         else Inr (Continue \<lparr>c_ret = acc @ lit @ header, c_src = rest, c_src_size = n,
                              c_first_header = False\<rparr>))
      else Inr (Continue \<lparr>c_ret = acc @ lit, c_src = rest, c_src_size = n,
                           c_first_header = False\<rparr>))"
proof (cases f)
  case True
  with assms have k: "k \<le> 252" by (simp add: max_run_simps)
  then have u: "unat (of_nat k :: byte) = k" by (simp add: unat_byte_of_nat)
  have cp: "copy_run acc (lit @ rest) k = Inr (acc @ lit)"
    using assms copy_run_ok[of k "lit @ rest" acc] by simp
  show ?thesis using True assms k
    by (simp add: decode_iter_def run_header_def load_def u Let_def CONSUME_def cp
          MAX_INITIAL_RUN_def RADIX_def max_run_simps CRDB_WORD_STUFF_HEADER_SIZE_def
          crdb_word_stuff_header_def)
next
  case False
  with assms have k: "k \<le> 64008" by (simp add: max_run_simps)
  note u = run_size_digits[OF k]
  have cp: "copy_run acc (lit @ rest) k = Inr (acc @ lit)"
    using assms copy_run_ok[of k "lit @ rest" acc] by simp
  show ?thesis using False assms k
    by (simp add: decode_iter_def run_header_def decode_run_size_def load_def u Let_def
          CONSUME_def cp MAX_REMAINING_RUN_def RADIX_def max_run_simps
          CRDB_WORD_STUFF_HEADER_SIZE_def crdb_word_stuff_header_def)
qed

lemma decode_iter_unfold:
  assumes wf: "c_src_size s \<le> length (c_src s)"
  shows "decode_iter s =
    (let h = (if c_first_header s then 1 else 2);
         k = (if c_first_header s then unat (c_src s ! 0)
              else unat (c_src s ! 0) + 253 * unat (c_src s ! 1));
         out = c_ret s @ take k (drop h (c_src s))
     in if c_src_size s < h then Inr (Break (Rejected (c_ret s)))
        else if c_src_size s - h < k \<or> k > max_run (c_first_header s)
        then Inr (Break (Rejected (c_ret s)))
        else if k < max_run (c_first_header s) then
          (if c_src_size s - h - k = 0 then Inr (Break (Decoded out))
           else if c_src_size s - h - k < 2 then Inr (Break (Rejected out))
           else Inr (Continue \<lparr>c_ret = out @ header, c_src = drop (h + k) (c_src s),
                      c_src_size = c_src_size s - h - k, c_first_header = False\<rparr>))
        else Inr (Continue \<lparr>c_ret = out, c_src = drop (h + k) (c_src s),
                      c_src_size = c_src_size s - h - k, c_first_header = False\<rparr>))"
proof (cases "c_first_header s")
  case True
  show ?thesis
  proof (cases "c_src_size s < 1")
    case s: True
    with True show ?thesis
      by (simp add: decode_iter_def Let_def)
  next
    case s: False
    with wf have ld: "load (c_src s) 0 1 = Inr [c_src s ! 0]"
      by (cases "c_src s") (simp_all add: load_def)
    show ?thesis
    proof (cases "c_src_size s - 1 < unat (c_src s ! 0) \<or> unat (c_src s ! 0) > 252")
      case b: True
      with True s ld show ?thesis
        by (simp add: decode_iter_def Let_def CONSUME_def max_run_simps MAX_INITIAL_RUN_def RADIX_def)
    next
      case b: False
      with wf s have "unat (c_src s ! 0) \<le> length (drop 1 (c_src s))" by auto
      from copy_run_ok[OF this] True s ld b show ?thesis
        by (simp add: decode_iter_def Let_def CONSUME_def max_run_simps MAX_INITIAL_RUN_def
              RADIX_def CRDB_WORD_STUFF_HEADER_SIZE_def crdb_word_stuff_header_def add.commute)
    qed
  qed
next
  case False
  show ?thesis
  proof (cases "c_src_size s < 2")
    case s: True
    with False show ?thesis
      by (simp add: decode_iter_def Let_def CRDB_WORD_STUFF_HEADER_SIZE_def)
  next
    case s: False
    let ?k = "unat (c_src s ! 0) + 253 * unat (c_src s ! 1)"
    from wf s have "take 2 (c_src s) = [c_src s ! 0, c_src s ! 1]"
      by (intro take_2_nth) simp
    with wf s have ld: "decode_run_size (c_src s) = Inr ?k"
      by (simp add: decode_run_size_def load_def RADIX_def)
    show ?thesis
    proof (cases "c_src_size s - 2 < ?k \<or> ?k > 64008")
      case b: True
      with False s ld show ?thesis
        by (simp add: decode_iter_def Let_def CONSUME_def max_run_simps MAX_REMAINING_RUN_def
              RADIX_def CRDB_WORD_STUFF_HEADER_SIZE_def)
    next
      case b: False
      with wf s have "?k \<le> length (drop 2 (c_src s))" by auto
      from copy_run_ok[OF this] False s ld b show ?thesis
        by (simp add: decode_iter_def Let_def CONSUME_def max_run_simps MAX_REMAINING_RUN_def
              RADIX_def CRDB_WORD_STUFF_HEADER_SIZE_def crdb_word_stuff_header_def add.commute)
    qed
  qed
qed

definition bytes_written :: "decoded \<Rightarrow> byte list" where
  "bytes_written r = (case r of Decoded out \<Rightarrow> out | Rejected out \<Rightarrow> out)"

lemma bytes_written_simps [simp]: "bytes_written (Decoded out) = out" "bytes_written (Rejected out) = out"
  by (simp_all add: bytes_written_def)

lemma decode_iter_safe:
  assumes wf: "c_src_size s \<le> length (c_src s)"
  shows "(\<exists>r. decode_iter s = Inr (Break r)
              \<and> length (bytes_written r)
                   \<le> length (c_ret s) + (c_src_size s - (if c_first_header s then 1 else 2)))
       \<or> (\<exists>s'. decode_iter s = Inr (Continue s')
              \<and> c_src_size s' \<le> length (c_src s') \<and> \<not> c_first_header s'
              \<and> length (c_ret s') + (c_src_size s' - 2)
                   \<le> length (c_ret s) + (c_src_size s - (if c_first_header s then 1 else 2)))"
proof -
  define h :: nat where "h = (if c_first_header s then 1 else 2)"
  define k where "k = (if c_first_header s then unat (c_src s ! 0)
              else unat (c_src s ! 0) + 253 * unat (c_src s ! 1))"
  define M where "M = max_run (c_first_header s)"
  define out where "out = c_ret s @ take k (drop h (c_src s))"
  define n where "n = c_src_size s"
  have di: "decode_iter s =
     (if n < h then Inr (Break (Rejected (c_ret s)))
        else if n - h < k \<or> k > M
        then Inr (Break (Rejected (c_ret s)))
        else if k < M then
          (if n - h - k = 0 then Inr (Break (Decoded out))
           else if n - h - k < 2 then Inr (Break (Rejected out))
           else Inr (Continue \<lparr>c_ret = out @ header, c_src = drop (h + k) (c_src s),
                      c_src_size = n - h - k, c_first_header = False\<rparr>))
        else Inr (Continue \<lparr>c_ret = out, c_src = drop (h + k) (c_src s),
                      c_src_size = n - h - k, c_first_header = False\<rparr>))"
    unfolding decode_iter_unfold[OF wf] Let_def h_def k_def M_def out_def n_def ..
  have lout: "h \<le> n \<Longrightarrow> \<not> n - h < k \<Longrightarrow> length out = length (c_ret s) + k"
    using wf by (simp add: out_def n_def)
  have wfn: "n \<le> length (c_src s)" using wf by (simp add: n_def)
  consider (a) "n < h" | (b) "h \<le> n" "n - h < k \<or> k > M"
    | (c) "h \<le> n" "\<not> n - h < k" "k < M" "n - h - k = 0"
    | (d) "h \<le> n" "\<not> n - h < k" "k < M" "n - h - k = 1"
    | (e) "h \<le> n" "\<not> n - h < k" "k < M" "2 \<le> n - h - k"
    | (f) "h \<le> n" "\<not> n - h < k" "k = M"
    by linarith
  then show ?thesis
  proof cases
    case a
    then have "decode_iter s = Inr (Break (Rejected (c_ret s)))" by (simp add: di)
    then show ?thesis by simp
  next
    case b
    then have "decode_iter s = Inr (Break (Rejected (c_ret s)))" by (auto simp: di)
    then show ?thesis by simp
  next
    case c
    then have "decode_iter s = Inr (Break (Decoded out))" by (simp add: di)
    moreover have "length out \<le> length (c_ret s) + (n - h)" using lout c by simp
    ultimately show ?thesis by (simp add: n_def h_def)
  next
    case d
    then have "decode_iter s = Inr (Break (Rejected out))" by (simp add: di)
    moreover have "length out \<le> length (c_ret s) + (n - h)" using lout d by simp
    ultimately show ?thesis by (simp add: n_def h_def)
  next
    case e
    let ?s' = "\<lparr>c_ret = out @ header, c_src = drop (h + k) (c_src s),
                      c_src_size = n - h - k, c_first_header = False\<rparr>"
    from e have "decode_iter s = Inr (Continue ?s')" by (simp add: di)
    moreover have "c_src_size ?s' \<le> length (c_src ?s')" using wfn by simp
    moreover have "length (c_ret ?s') + (c_src_size ?s' - 2) \<le> length (c_ret s) + (n - h)"
      using lout e by (simp add: header_bytes)
    ultimately show ?thesis by (simp add: n_def h_def)
  next
    case f
    let ?s' = "\<lparr>c_ret = out, c_src = drop (h + k) (c_src s),
                      c_src_size = n - h - k, c_first_header = False\<rparr>"
    from f have "decode_iter s = Inr (Continue ?s')" by (simp add: di)
    moreover have "c_src_size ?s' \<le> length (c_src ?s')" using wfn by simp
    moreover have "length (c_ret ?s') + (c_src_size ?s' - 2) \<le> length (c_ret s) + (n - h)"
      using lout f by simp
    ultimately show ?thesis by (simp add: n_def h_def)
  qed
qed

lemma decode_loop_safe:
  "c_src_size s \<le> length (c_src s) \<Longrightarrow>
   \<exists>r. decode_loop s = Inr r
     \<and> length (bytes_written r)
          \<le> length (c_ret s) + (c_src_size s - (if c_first_header s then 1 else 2))"
proof (induction s rule: decode_loop.induct)
  case (1 s)
  from decode_iter_safe[OF "1.prems"]
  consider (stop) r where "decode_iter s = Inr (Break r)"
        "length (bytes_written r)
           \<le> length (c_ret s) + (c_src_size s - (if c_first_header s then 1 else 2))"
    | (cont) s' where "decode_iter s = Inr (Continue s')"
        "c_src_size s' \<le> length (c_src s')" "\<not> c_first_header s'"
        "length (c_ret s') + (c_src_size s' - 2)
           \<le> length (c_ret s) + (c_src_size s - (if c_first_header s then 1 else 2))"
    by auto
  then show ?case
  proof cases
    case stop
    then show ?thesis by (subst decode_loop.simps) simp
  next
    case cont
    from "1.IH"[OF cont(1) refl cont(2)] obtain r where
      r: "decode_loop s' = Inr r \<and>
        length (bytes_written r)
          \<le> length (c_ret s') + (c_src_size s' - (if c_first_header s' then 1 else 2))" ..
    have "decode_loop s = Inr r"
      using cont(1) r by (subst decode_loop.simps) simp
    moreover have "length (bytes_written r)
          \<le> length (c_ret s) + (c_src_size s - (if c_first_header s then 1 else 2))"
      using r cont(3,4) by simp
    ultimately show ?thesis by blast
  qed
qed

lemma decode_loop_Decoded_size:
  "decode_loop s = Inr (Decoded out) \<Longrightarrow>
   (if c_first_header s then 1 else 2) \<le> c_src_size s"
proof (induction s rule: decode_loop.induct)
  case (1 s)
  show ?case
  proof (rule ccontr)
    assume "\<not> (if c_first_header s then 1 else 2) \<le> c_src_size s"
    then have "decode_iter s = Inr (Break (Rejected (c_ret s)))"
      by (cases "c_first_header s")
         (simp_all add: decode_iter_def Let_def CRDB_WORD_STUFF_HEADER_SIZE_def)
    then have "decode_loop s = Inr (Rejected (c_ret s))"
      by (subst decode_loop.simps) simp
    with "1.prems" show False by simp
  qed
qed

section \<open>The claims about the codec\<close>

text \<open>
  Claim C3 (decoder robustness).  For every byte string \<open>e\<close>, possibly malformed,
  \<^verbatim>\<open>crdb_word_stuff_decode\<close> applied to \<open>e\<close> and its length returns: it either
  returns \<^verbatim>\<open>NULL\<close> or succeeds.  It never reads at an index at or beyond the length
  of \<open>e\<close> (every such read is \<open>Inl Out_of_bounds\<close> in the model, and the result is never
  \<open>Inl\<close>).  On success it has written at most \<open>length e - 1\<close> bytes; when it returns
  \<^verbatim>\<open>NULL\<close> it has not written more either.
\<close>

theorem decode_robust:
  "(\<exists>out. crdb_word_stuff_decode e (length e) = Inr (Rejected out) \<and> length out \<le> length e - 1)
   \<or> (\<exists>out. crdb_word_stuff_decode e (length e) = Inr (Decoded out) \<and> length out + 1 \<le> length e)"
proof -
  let ?s = "\<lparr>c_ret = [], c_src = e, c_src_size = length e, c_first_header = True\<rparr>"
  have "c_src_size ?s \<le> length (c_src ?s)" by simp
  from decode_loop_safe[OF this] obtain r where
    r: "decode_loop ?s = Inr r \<and>
        length (bytes_written r)
          \<le> length (c_ret ?s) + (c_src_size ?s - (if c_first_header ?s then 1 else 2))" ..
  show ?thesis
  proof (cases r)
    case (Rejected out)
    with r show ?thesis by (simp add: crdb_word_stuff_decode_def)
  next
    case (Decoded out)
    with r have "decode_loop ?s = Inr (Decoded out)" by simp
    from decode_loop_Decoded_size[OF this] have "1 \<le> length e" by simp
    with r Decoded show ?thesis by (auto simp: crdb_word_stuff_decode_def)
  qed
qed

section \<open>The encoder's output\<close>

lemma marker_free_append:
  assumes "marker_free a" "marker_free b"
    and "a \<noteq> [] \<and> b \<noteq> [] \<longrightarrow> \<not> (last a = 0xFE \<and> hd b = 0xFD)"
  shows "marker_free (a @ b)"
  unfolding marker_free_def
proof
  fix i
  show "\<not> marker_at (a @ b) i"
  proof
    assume m: "marker_at (a @ b) i"
    then have i: "i + 1 < length a + length b" "(a @ b) ! i = 0xFE" "(a @ b) ! (i + 1) = 0xFD"
      by (simp_all add: marker_at_iff)
    consider "i + 1 < length a" | "i + 1 = length a" | "length a \<le> i" by linarith
    then show False
    proof cases
      case 1
      with i have "marker_at a i" by (simp add: marker_at_iff nth_append)
      with assms(1) show False by (simp add: marker_free_def)
    next
      case 2
      then have a: "a \<noteq> []" by auto
      from 2 i have b: "b \<noteq> []" by auto
      from 2 have "i = length a - 1" by simp
      with a have "last a = a ! i" by (simp add: last_conv_nth)
      with 2 i have la: "last a = 0xFE" by (simp add: nth_append)
      from 2 i b have "hd b = 0xFD" by (simp add: nth_append hd_conv_nth)
      with la a b assms(3) show False by simp
    next
      case 3
      with i have "marker_at b (i - length a)"
        by (simp add: marker_at_iff nth_append Suc_diff_le)
      with assms(2) show False by (simp add: marker_free_def)
    qed
  qed
qed

lemma marker_free_Nil [simp]: "marker_free []"
  by (simp add: marker_free_def marker_at_iff)

lemma marker_free_single [simp]: "marker_free [b]"
  by (simp add: marker_free_def marker_at_iff)

lemma marker_free_digits:
  "\<forall>b \<in> set ds. unat b < 253 \<Longrightarrow> marker_free xs \<Longrightarrow> marker_free (ds @ xs)"
proof (induction ds)
  case Nil
  then show ?case by simp
next
  case (Cons d ds)
  then have mf: "marker_free (ds @ xs)" by simp
  from Cons.prems have "unat d < 253" by simp
  then have "d \<noteq> 0xFE" by auto
  then have "marker_free ([d] @ (ds @ xs))"
    using mf marker_free_append[of "[d]" "ds @ xs"] by simp
  then show ?case by simp
qed

lemma marker_free_take:
  "\<forall>j. j + 2 \<le> k \<longrightarrow> \<not> marker_at xs j \<Longrightarrow> marker_free (take k xs)"
  unfolding marker_free_def
proof
  fix i
  assume a: "\<forall>j. j + 2 \<le> k \<longrightarrow> \<not> marker_at xs j"
  show "\<not> marker_at (take k xs) i"
  proof
    assume m: "marker_at (take k xs) i"
    then have "i + 2 \<le> k" using marker_at_bound[OF m] by simp
    with m a show False by (simp add: marker_at_take)
  qed
qed

lemma run_header_digits:
  "k \<le> max_run f \<Longrightarrow> \<forall>b \<in> set (run_header f k). unat b < 253"
proof (cases f)
  case True
  assume "k \<le> max_run f"
  with True have "k \<le> 252" by (simp add: max_run_simps)
  with True show ?thesis by (simp add: run_header_def unat_byte_of_nat)
next
  case False
  assume "k \<le> max_run f"
  with False have k: "k \<le> 64008" by (simp add: max_run_simps)
  have a: "k mod 253 < 253" by simp
  have b: "k div 253 < 253" using k by simp
  show ?thesis using False a b
    by (simp add: run_header_def RADIX_def unat_byte_of_nat)
qed

lemma run_header_hd:
  "k \<le> max_run f \<Longrightarrow> run_header f k @ xs \<noteq> [] \<and> unat (hd (run_header f k @ xs)) < 253"
  using run_header_digits[of k f] by (cases f) (simp_all add: run_header_def)

lemma take_split_marker:
  assumes "marker_at xs k" "k + 2 \<le> n"
  shows "take k xs @ header @ take (n - (k + 2)) (drop (k + 2) xs) = take n xs"
proof -
  from assms have h: "take 2 (drop k xs) = header" by (simp add: marker_at_def)
  have e1: "n = k + (n - k)" and e2: "n - k = 2 + (n - (k + 2))"
    using assms(2) by simp_all
  have "take n xs = take k xs @ take (n - k) (drop k xs)"
    by (subst e1) (simp only: take_add)
  also have "take (n - k) (drop k xs)
      = take 2 (drop k xs) @ take (n - (k + 2)) (drop 2 (drop k xs))"
    by (subst e2) (simp only: take_add)
  also have "drop 2 (drop k xs) = drop (k + 2) xs"
    by (simp add: add.commute)
  finally show ?thesis using h by simp
qed

lemma encode_loop_spec:
  "c_src_size s \<le> length (c_src s) \<Longrightarrow>
   \<exists>r. encode_loop s = Inr (c_ret s @ r)
     \<and> (\<forall>acc rest. decode_loop \<lparr>c_ret = acc, c_src = r @ rest, c_src_size = length r,
                                  c_first_header = c_first_header s\<rparr>
                      = Inr (Decoded (acc @ take (c_src_size s) (c_src s))))
     \<and> marker_free r \<and> r \<noteq> [] \<and> unat (hd r) < 253
     \<and> (\<not> c_first_header s \<longrightarrow> 2 \<le> length r)"
proof (induction s rule: encode_loop.induct)
  case (1 s)
  let ?f = "c_first_header s"
  let ?M = "max_run ?f"
  from encode_iter_spec[OF "1.prems"] obtain k where kk:
    "k \<le> ?M \<and> k \<le> c_src_size s
          \<and> (\<forall>j. j + 2 \<le> k \<longrightarrow> \<not> marker_at (c_src s) j)
          \<and> encode_iter s =
               (if k < ?M \<and> k = c_src_size s
                then Inr (Break (c_ret s @ run_header ?f k @ take k (c_src s)))
                else Inr (Continue
                   \<lparr>c_ret = c_ret s @ run_header ?f k @ take k (c_src s),
                    c_src = drop (if k < ?M then k + 2 else k) (c_src s),
                    c_src_size = c_src_size s - (if k < ?M then k + 2 else k),
                    c_first_header = False\<rparr>))
          \<and> (k < ?M \<and> k < c_src_size s \<longrightarrow> k + 2 \<le> c_src_size s \<and> marker_at (c_src s) k)" ..
  then have kM: "k \<le> ?M" and ks: "k \<le> c_src_size s"
    and nom: "\<forall>j. j + 2 \<le> k \<longrightarrow> \<not> marker_at (c_src s) j"
    and mk: "k < ?M \<and> k < c_src_size s \<longrightarrow> k + 2 \<le> c_src_size s \<and> marker_at (c_src s) k"
    by simp_all
  let ?lit = "take k (c_src s)"
  let ?h = "run_header ?f k"
  have llit: "length ?lit = k" using ks "1.prems" by simp
  have mflit: "marker_free ?lit" using nom by (rule marker_free_take)
  have hlen: "1 \<le> length ?h" "\<not> ?f \<longrightarrow> length ?h = 2" by (simp_all add: length_run_header)
  show ?case
  proof (cases "k < ?M \<and> k = c_src_size s")
    case True
    with kk have ei: "encode_iter s = Inr (Break (c_ret s @ ?h @ ?lit))" by simp
    have enc: "encode_loop s = Inr (c_ret s @ (?h @ ?lit))"
      by (subst encode_loop.simps) (simp add: ei)
    have dec: "\<forall>acc rest. decode_loop \<lparr>c_ret = acc, c_src = (?h @ ?lit) @ rest,
             c_src_size = length (?h @ ?lit), c_first_header = ?f\<rparr>
           = Inr (Decoded (acc @ take (c_src_size s) (c_src s)))"
    proof (intro allI)
      fix acc rest
      have "decode_iter \<lparr>c_ret = acc, c_src = ?h @ ?lit @ rest,
               c_src_size = length ?h + k + 0, c_first_header = ?f\<rparr> = Inr (Break (Decoded (acc @ ?lit)))"
        using True llit by (subst decode_iter_chunk) simp_all
      then show "decode_loop \<lparr>c_ret = acc, c_src = (?h @ ?lit) @ rest,
             c_src_size = length (?h @ ?lit), c_first_header = ?f\<rparr>
           = Inr (Decoded (acc @ take (c_src_size s) (c_src s)))"
        using True llit by (subst decode_loop.simps) simp
    qed
    have mf: "marker_free (?h @ ?lit)"
      using run_header_digits[OF kM] mflit by (rule marker_free_digits)
    have two: "\<not> ?f \<longrightarrow> 2 \<le> length (?h @ ?lit)" using hlen by simp
    from enc dec mf run_header_hd[OF kM, of ?lit] two show ?thesis by blast
  next
    case False
    let ?c = "if k < ?M then k + 2 else k"
    let ?s' = "\<lparr>c_ret = c_ret s @ ?h @ ?lit, c_src = drop ?c (c_src s),
                 c_src_size = c_src_size s - ?c, c_first_header = False\<rparr>"
    from False kk have ei: "encode_iter s = Inr (Continue ?s')" by simp
    have wf': "c_src_size ?s' \<le> length (c_src ?s')" using "1.prems" by simp
    from "1.IH"[OF ei refl wf'] obtain r' where rr:
      "encode_loop ?s' = Inr (c_ret ?s' @ r')
       \<and> (\<forall>acc rest. decode_loop \<lparr>c_ret = acc, c_src = r' @ rest, c_src_size = length r',
                                  c_first_header = c_first_header ?s'\<rparr>
                      = Inr (Decoded (acc @ take (c_src_size ?s') (c_src ?s'))))
       \<and> marker_free r' \<and> r' \<noteq> [] \<and> unat (hd r') < 253
       \<and> (\<not> c_first_header ?s' \<longrightarrow> 2 \<le> length r')" ..
    then have enc': "encode_loop ?s' = Inr (c_ret s @ ?h @ ?lit @ r')"
      and dec': "\<And>acc rest. decode_loop \<lparr>c_ret = acc, c_src = r' @ rest, c_src_size = length r',
                                  c_first_header = False\<rparr>
                      = Inr (Decoded (acc @ take (c_src_size s - ?c) (drop ?c (c_src s))))"
      and mf': "marker_free r'" and ne': "r' \<noteq> []" and hd': "unat (hd r') < 253"
      and len': "2 \<le> length r'"
      by simp_all
    have enc: "encode_loop s = Inr (c_ret s @ (?h @ ?lit @ r'))"
      by (subst encode_loop.simps) (simp add: ei enc')
    have whole: "k < ?M \<Longrightarrow> ?lit @ header @ take (c_src_size s - (k + 2)) (drop (k + 2) (c_src s))
                    = take (c_src_size s) (c_src s)"
    proof -
      assume lt: "k < ?M"
      with False ks have "k < c_src_size s" by simp
      with lt mk have "k + 2 \<le> c_src_size s" "marker_at (c_src s) k" by simp_all
      then show ?thesis using take_split_marker by blast
    qed
    have whole2: "\<not> k < ?M \<Longrightarrow> ?lit @ take (c_src_size s - k) (drop k (c_src s))
                    = take (c_src_size s) (c_src s)"
      using ks take_add[of k "c_src_size s - k" "c_src s"] by simp
    have dec: "\<forall>acc rest. decode_loop \<lparr>c_ret = acc, c_src = (?h @ ?lit @ r') @ rest,
             c_src_size = length (?h @ ?lit @ r'), c_first_header = ?f\<rparr>
           = Inr (Decoded (acc @ take (c_src_size s) (c_src s)))"
    proof (intro allI)
      fix acc rest
      let ?d = "\<lparr>c_ret = acc, c_src = ?h @ ?lit @ (r' @ rest),
               c_src_size = length ?h + k + length r', c_first_header = ?f\<rparr>"
      have di: "decode_iter ?d =
          (if k < ?M then
              Inr (Continue \<lparr>c_ret = acc @ ?lit @ header, c_src = r' @ rest,
                     c_src_size = length r', c_first_header = False\<rparr>)
           else Inr (Continue \<lparr>c_ret = acc @ ?lit, c_src = r' @ rest,
                     c_src_size = length r', c_first_header = False\<rparr>))"
        using llit kM len' ne' by (subst decode_iter_chunk) simp_all
      have "decode_loop ?d = Inr (Decoded (acc @ take (c_src_size s) (c_src s)))"
      proof (cases "k < ?M")
        case True
        with di dec'[of "acc @ ?lit @ header" rest] whole[OF True] show ?thesis
          by (subst decode_loop.simps) simp
      next
        case False
        with di dec'[of "acc @ ?lit" rest] whole2[OF False] show ?thesis
          by (subst decode_loop.simps) simp
      qed
      then show "decode_loop \<lparr>c_ret = acc, c_src = (?h @ ?lit @ r') @ rest,
             c_src_size = length (?h @ ?lit @ r'), c_first_header = ?f\<rparr>
           = Inr (Decoded (acc @ take (c_src_size s) (c_src s)))"
        using llit by (simp add: add.assoc)
    qed
    have "hd r' \<noteq> 0xFD" using hd' by auto
    then have "marker_free (?lit @ r')"
      using mflit mf' marker_free_append[of ?lit r'] by simp
    then have mf: "marker_free (?h @ ?lit @ r')"
      using run_header_digits[OF kM] marker_free_digits[of ?h "?lit @ r'"] by simp
    have two: "\<not> ?f \<longrightarrow> 2 \<le> length (?h @ ?lit @ r')" using hlen by simp
    from enc dec mf run_header_hd[OF kM, of "?lit @ r'"] two show ?thesis by blast
  qed
qed

lemma encode_spec:
  assumes "n \<le> length v"
  shows "\<exists>enc. crdb_word_stuff_encode v n = Inr enc
     \<and> (\<forall>rest. crdb_word_stuff_decode (enc @ rest) (length enc) = Inr (Decoded (take n v)))
     \<and> marker_free enc \<and> enc \<noteq> [] \<and> unat (hd enc) < 253"
proof -
  let ?s = "\<lparr>c_ret = [], c_src = v, c_src_size = n, c_first_header = True\<rparr>"
  have "c_src_size ?s \<le> length (c_src ?s)" using assms by simp
  from encode_loop_spec[OF this] obtain r where r:
    "encode_loop ?s = Inr (c_ret ?s @ r)
     \<and> (\<forall>acc rest. decode_loop \<lparr>c_ret = acc, c_src = r @ rest, c_src_size = length r,
                                  c_first_header = c_first_header ?s\<rparr>
                      = Inr (Decoded (acc @ take (c_src_size ?s) (c_src ?s))))
     \<and> marker_free r \<and> r \<noteq> [] \<and> unat (hd r) < 253
     \<and> (\<not> c_first_header ?s \<longrightarrow> 2 \<le> length r)" ..
  then have "crdb_word_stuff_encode v n = Inr r"
    by (simp add: crdb_word_stuff_encode_def)
  moreover from r have "\<forall>rest. crdb_word_stuff_decode (r @ rest) (length r) = Inr (Decoded (take n v))"
    by (simp add: crdb_word_stuff_decode_def)
  ultimately show ?thesis using r by blast
qed

text \<open>
  Claim C1 (codec round trip).  For every byte string \<open>s\<close>, the encoder returns an
  encoding of \<open>s\<close>, and the decoder applied to that encoding succeeds and returns exactly
  \<open>s\<close>.
\<close>

theorem encode_decode_roundtrip:
  "\<exists>enc. crdb_word_stuff_encode s (length s) = Inr enc
     \<and> crdb_word_stuff_decode enc (length enc) = Inr (Decoded s)"
proof -
  from encode_spec[of "length s" s] obtain enc where e:
    "crdb_word_stuff_encode s (length s) = Inr enc
     \<and> (\<forall>rest. crdb_word_stuff_decode (enc @ rest) (length enc) = Inr (Decoded (take (length s) s)))
     \<and> marker_free enc \<and> enc \<noteq> [] \<and> unat (hd enc) < 253"
    by auto
  then have "crdb_word_stuff_decode (enc @ []) (length enc) = Inr (Decoded (take (length s) s))"
    by blast
  with e show ?thesis by auto
qed

text \<open>
  Claim C2 (marker-free encoding).  For every byte string \<open>s\<close>, the output of the encoder
  holds the two header bytes \<open>0xFE 0xFD\<close> at no position, aligned or not, and
  \<^verbatim>\<open>crdb_word_stuff_header_find\<close> over the whole output returns one past its last byte.
\<close>

theorem encode_marker_free:
  "\<exists>enc. crdb_word_stuff_encode s (length s) = Inr enc
     \<and> marker_free enc
     \<and> crdb_word_stuff_header_find enc (length enc) = Inr (length enc)"
proof -
  from encode_spec[of "length s" s] obtain enc where e:
    "crdb_word_stuff_encode s (length s) = Inr enc
     \<and> (\<forall>rest. crdb_word_stuff_decode (enc @ rest) (length enc) = Inr (Decoded (take (length s) s)))
     \<and> marker_free enc \<and> enc \<noteq> [] \<and> unat (hd enc) < 253"
    by auto
  then have "marker_free (take (length enc) enc)" by simp
  then have "crdb_word_stuff_header_find enc (length enc) = Inr (length enc)"
    by (rule header_find_marker_free) simp
  with e show ?thesis by blast
qed

section \<open>CRC32C (record\_stream.c)\<close>

text \<open>
  \<^verbatim>\<open>crdb_crc32c\<close> calls the compiler intrinsics \<^verbatim>\<open>_mm_crc32_u32\<close> and
  \<^verbatim>\<open>_mm_crc32_u8\<close> of \<^verbatim>\<open><smmintrin.h>\<close>, the CRC32 instruction of SSE4.2; they
  are not code of the repository.
  Modelled from the spec: the intrinsics accumulate a CRC with the Castagnoli polynomial
  \<open>0x1EDC6F41\<close>, on bit-reflected data: the accumulator is combined with the new data by
  exclusive or and then shifted right once per data bit, the reflected polynomial being
  added whenever a one is shifted out.  They neither invert the accumulator nor the result.
\<close>

definition crc32c_polynomial :: u32 where
  "crc32c_polynomial = 0x1EDC6F41"

definition crc32c_reflected :: u32 where
  "crc32c_reflected = 0x82F63B78"

definition crc_shift :: "u32 \<Rightarrow> u32" where
  "crc_shift acc =
     (if bit acc 0 then drop_bit 1 acc XOR crc32c_reflected else drop_bit 1 acc)"

definition mm_crc32_u8 :: "u32 \<Rightarrow> byte \<Rightarrow> u32" where
  "mm_crc32_u8 crc v = (crc_shift ^^ 8) (crc XOR ucast v)"

definition mm_crc32_u32 :: "u32 \<Rightarrow> u32 \<Rightarrow> u32" where
  "mm_crc32_u32 crc v = (crc_shift ^^ 32) (crc XOR v)"

text \<open>
  A \<^verbatim>\<open>uint32_t\<close> in memory, in host byte order.  The code needs SSE4.2, so the host is
  an x86 and the order is little-endian.
\<close>

fun le32 :: "byte list \<Rightarrow> u32" where
  "le32 [] = 0"
| "le32 (b # bs) = ucast b OR push_bit 8 (le32 bs)"

definition bytes_of_u32 :: "u32 \<Rightarrow> byte list" where
  "bytes_of_u32 w = [ucast w, ucast (drop_bit 8 w), ucast (drop_bit 16 w), ucast (drop_bit 24 w)]"

text \<open>\<^verbatim>\<open>crdb_crc32c(buf, len)\<close>: whole 32-bit words first, then the remaining bytes.\<close>

function crc32c_words :: "byte list \<Rightarrow> nat \<Rightarrow> u32 \<Rightarrow> nat \<Rightarrow> error + (u32 \<times> nat)" where
  "crc32c_words buf len acc i =
     (if i + 4 \<le> len then
        (case load buf i 4 of
           Inl e \<Rightarrow> Inl e
         | Inr bytes \<Rightarrow> crc32c_words buf len (mm_crc32_u32 acc (le32 bytes)) (i + 4))
      else Inr (acc, i))"
  by pat_completeness auto
termination
  by (relation "measure (\<lambda>(buf, len, acc, i). len - i)") auto

function crc32c_bytes :: "byte list \<Rightarrow> nat \<Rightarrow> u32 \<Rightarrow> nat \<Rightarrow> error + u32" where
  "crc32c_bytes buf len acc i =
     (if i < len then
        (case load buf i 1 of
           Inl e \<Rightarrow> Inl e
         | Inr bytes \<Rightarrow> crc32c_bytes buf len (mm_crc32_u8 acc (bytes ! 0)) (i + 1))
      else Inr acc)"
  by pat_completeness auto
termination
  by (relation "measure (\<lambda>(buf, len, acc, i). len - i)") auto

declare crc32c_words.simps [simp del]
declare crc32c_bytes.simps [simp del]

definition crdb_crc32c :: "byte list \<Rightarrow> nat \<Rightarrow> error + u32" where
  "crdb_crc32c buf len =
     (case crc32c_words buf len 0 0 of
        Inl e \<Rightarrow> Inl e
      | Inr (acc, i) \<Rightarrow> crc32c_bytes buf len acc i)"

text \<open>
  The Castagnoli CRC of a byte string from a given accumulator, one byte at a time,
  with no inversion of the result.
\<close>

definition crc32c_from :: "u32 \<Rightarrow> byte list \<Rightarrow> u32" where
  "crc32c_from acc bs = foldl mm_crc32_u8 acc bs"

lemma funpow_8: "(f ^^ 8) x = f (f (f (f (f (f (f (f x)))))))"
  by (simp add: eval_nat_numeral)

lemma funpow_32: "(f ^^ 32) x = (f ^^ 8) ((f ^^ 8) ((f ^^ 8) ((f ^^ 8) x)))"
proof -
  have "(f ^^ 32) = (f ^^ (8 + (8 + (8 + 8))))" by simp
  then show ?thesis by (simp only: funpow_add o_apply)
qed

lemmas crc_eval = mm_crc32_u8_def mm_crc32_u32_def funpow_32 funpow_8 crc_shift_def
  crc32c_reflected_def

lemma reflected: "crc32c_reflected = word_reverse crc32c_polynomial"
  unfolding crc32c_reflected_def crc32c_polynomial_def
  by (simp add: word_reverse_def upt_rec)

lemma fits_bit: "take_bit m y = y \<Longrightarrow> bit y k \<Longrightarrow> k < m" for y :: u32
  by (metis bit_take_bit_iff)

lemma bit_double: "bit (y * 2) (Suc k) \<longleftrightarrow> k < 31 \<and> bit y k" for y :: u32
proof -
  have "y * 2 = push_bit 1 y" by (simp add: push_bit_eq_mult)
  then show ?thesis by (simp only: bit_push_bit_iff) (auto simp: possible_bit_word)
qed

lemma crc_shift_xor:
  fixes x y :: u32
  assumes "take_bit 31 y = y"
  shows "crc_shift (x XOR push_bit 1 y) = crc_shift x XOR y"
proof -
  have b0: "bit (x XOR push_bit 1 y) 0 = bit x 0"
    by (simp add: bit_0 even_xor_iff)
  have d: "drop_bit 1 (x XOR push_bit 1 y) = drop_bit 1 x XOR y"
  proof (rule bit_word_eqI)
    fix k assume "k < LENGTH(32)"
    show "bit (drop_bit 1 (x XOR push_bit 1 y)) k = bit (drop_bit 1 x XOR y) k"
      using fits_bit[OF assms, of k]
      by (auto simp: bit_simps bit_double)
  qed
  show ?thesis
    unfolding crc_shift_def b0 d by (simp add: xor.assoc xor.commute xor.left_commute)
qed

lemma crc_shifts_xor:
  fixes x y :: u32
  shows "n \<le> 32 \<Longrightarrow> take_bit (32 - n) y = y \<Longrightarrow>
         (crc_shift ^^ n) (x XOR push_bit n y) = (crc_shift ^^ n) x XOR y"
proof (induction n arbitrary: x y)
  case 0
  then show ?case by simp
next
  case (Suc n)
  from Suc.prems have y: "take_bit (31 - n) y = y" by simp
  have f: "take_bit 31 (push_bit n y) = push_bit n y"
    using y by (simp add: take_bit_push_bit)
  have "take_bit (32 - n) (take_bit (31 - n) y) = take_bit (31 - n) y"
    by (simp add: min_def)
  with y have g: "take_bit (32 - n) y = y" by simp
  have "(crc_shift ^^ Suc n) (x XOR push_bit (Suc n) y)
      = (crc_shift ^^ n) (crc_shift (x XOR push_bit 1 (push_bit n y)))"
    by (simp add: funpow_swap1)
  also have "\<dots> = (crc_shift ^^ n) (crc_shift x XOR push_bit n y)"
    by (simp only: crc_shift_xor[OF f])
  also have "\<dots> = (crc_shift ^^ n) (crc_shift x) XOR y"
    using Suc.prems g by (intro Suc.IH) simp_all
  also have "\<dots> = (crc_shift ^^ Suc n) x XOR y"
    by (simp add: funpow_swap1)
  finally show ?case .
qed

lemma le32_fits: "take_bit (8 * length bs) (le32 bs) = le32 bs"
proof (induction bs)
  case Nil
  then show ?case by simp
next
  case (Cons b bs)
  have "take_bit (8 * length (b # bs)) (le32 (b # bs))
      = take_bit (8 + 8 * length bs) (ucast b) OR take_bit (8 + 8 * length bs) (push_bit 8 (le32 bs))"
    by (simp add: take_bit_or)
  also have "take_bit (8 + 8 * length bs) (push_bit 8 (le32 bs)) = push_bit 8 (le32 bs)"
    using Cons.IH by (simp add: take_bit_push_bit)
  also have "take_bit (8 + 8 * length bs) (ucast b :: u32) = ucast b"
    by (rule bit_word_eqI) (auto simp: bit_simps dest: bit_imp_le_length)
  finally show ?case by simp
qed

lemma byte_or_xor: "ucast b OR push_bit 8 w = ucast b XOR push_bit 8 w"
  for b :: byte and w :: u32
  by (rule bit_word_eqI) (auto simp: bit_simps dest: bit_imp_le_length)

lemma crc_word_bytes:
  "length bs \<le> 4 \<Longrightarrow>
   (crc_shift ^^ (8 * length bs)) (acc XOR le32 bs) = crc32c_from acc bs"
proof (induction bs arbitrary: acc)
  case Nil
  then show ?case by (simp add: crc32c_from_def)
next
  case (Cons b bs)
  have fit: "take_bit (32 - 8) (le32 bs) = le32 bs"
  proof -
    have "take_bit 24 (take_bit (8 * length bs) (le32 bs)) = take_bit (8 * length bs) (le32 bs)"
      using Cons.prems by (simp add: min_def)
    then show ?thesis by (simp add: le32_fits)
  qed
  have "(crc_shift ^^ (8 * length (b # bs))) (acc XOR le32 (b # bs))
      = (crc_shift ^^ (8 * length bs)) ((crc_shift ^^ 8) ((acc XOR ucast b) XOR push_bit 8 (le32 bs)))"
  proof -
    have e: "8 * length (b # bs) = 8 * length bs + 8" by simp
    show ?thesis
      unfolding e funpow_add o_apply by (simp add: byte_or_xor xor.assoc)
  qed
  also have "(crc_shift ^^ 8) ((acc XOR ucast b) XOR push_bit 8 (le32 bs))
      = mm_crc32_u8 acc b XOR le32 bs"
    unfolding mm_crc32_u8_def using fit by (intro crc_shifts_xor) simp_all
  also have "(crc_shift ^^ (8 * length bs)) (mm_crc32_u8 acc b XOR le32 bs)
      = crc32c_from (mm_crc32_u8 acc b) bs"
    using Cons.prems by (intro Cons.IH) simp
  finally show ?case by (simp add: crc32c_from_def)
qed

lemma mm_crc32_u32_bytes:
  "length bs = 4 \<Longrightarrow> mm_crc32_u32 acc (le32 bs) = crc32c_from acc bs"
  using crc_word_bytes[of bs acc] by (simp add: mm_crc32_u32_def)

lemma le32_bytes_of_u32 [simp]: "le32 (bytes_of_u32 w) = w"
proof (rule bit_word_eqI)
  fix n assume "n < LENGTH(32)"
  then consider "n < 8" | "8 \<le> n" "n < 16" | "16 \<le> n" "n < 24" | "24 \<le> n" "n < 32"
    by fastforce
  then show "bit (le32 (bytes_of_u32 w)) n = bit w n"
    by cases (auto simp: bytes_of_u32_def bit_simps)
qed

lemma crc32c_from_append:
  "crc32c_from acc (a @ b) = crc32c_from (crc32c_from acc a) b"
  by (simp add: crc32c_from_def)

lemma take_drop_step:
  "n \<le> m \<Longrightarrow> take n (drop i xs) @ take (m - n) (drop (i + n) xs) = take m (drop i xs)"
proof -
  assume "n \<le> m"
  then have e: "m = n + (m - n)" by simp
  have "take m (drop i xs) = take n (drop i xs) @ take (m - n) (drop n (drop i xs))"
    by (subst e) (simp only: take_add)
  then show ?thesis by (simp add: add.commute)
qed

lemma crc32c_words_spec:
  "len \<le> length buf \<Longrightarrow> i \<le> len \<Longrightarrow>
   \<exists>j. crc32c_words buf len acc i = Inr (crc32c_from acc (take (j - i) (drop i buf)), j)
       \<and> i \<le> j \<and> j \<le> len"
proof (induction buf len acc i rule: crc32c_words.induct)
  case (1 buf len acc i)
  show ?case
  proof (cases "i + 4 \<le> len")
    case False
    then have "crc32c_words buf len acc i = Inr (acc, i)"
      by (subst crc32c_words.simps) simp
    with "1.prems" show ?thesis by (simp add: crc32c_from_def)
  next
    case True
    let ?w = "take 4 (drop i buf)"
    have ld: "load buf i 4 = Inr ?w" using True "1.prems" by simp
    have lw: "length ?w = 4" using True "1.prems" by simp
    let ?acc = "mm_crc32_u32 acc (le32 ?w)"
    have acc: "?acc = crc32c_from acc ?w" using lw by (rule mm_crc32_u32_bytes)
    from "1.IH"[OF True ld "1.prems"(1)] True
    obtain j where j: "crc32c_words buf len ?acc (i + 4)
          = Inr (crc32c_from ?acc (take (j - (i + 4)) (drop (i + 4) buf)), j)
       \<and> i + 4 \<le> j \<and> j \<le> len"
      by auto
    then have jle: "i + 4 \<le> j" "j \<le> len" by blast+
    have "crc32c_from ?acc (take (j - (i + 4)) (drop (i + 4) buf))
        = crc32c_from acc (?w @ take (j - i - 4) (drop (i + 4) buf))"
      by (simp add: acc crc32c_from_append)
    also have "?w @ take (j - i - 4) (drop (i + 4) buf) = take (j - i) (drop i buf)"
      using jle take_drop_step[of 4 "j - i" i buf] by simp
    finally have "crc32c_words buf len acc i
        = Inr (crc32c_from acc (take (j - i) (drop i buf)), j)"
      using True ld j by (subst crc32c_words.simps) simp
    with jle show ?thesis by auto
  qed
qed

lemma crc32c_bytes_spec:
  "len \<le> length buf \<Longrightarrow> i \<le> len \<Longrightarrow>
   crc32c_bytes buf len acc i = Inr (crc32c_from acc (take (len - i) (drop i buf)))"
proof (induction buf len acc i rule: crc32c_bytes.induct)
  case (1 buf len acc i)
  show ?case
  proof (cases "i < len")
    case False
    with "1.prems" show ?thesis
      by (subst crc32c_bytes.simps) (simp add: crc32c_from_def)
  next
    case True
    have ld: "load buf i 1 = Inr [buf ! i]"
      using True "1.prems" by (simp add: take_Suc_conv_app_nth)
    have d: "drop i buf = buf ! i # drop (i + 1) buf"
      using True "1.prems" by (simp add: Cons_nth_drop_Suc)
    have "take (len - i) (drop i buf) = buf ! i # take (len - (i + 1)) (drop (i + 1) buf)"
    proof -
      from True have e: "len - i = Suc (len - (i + 1))" by simp
      show ?thesis by (subst d, subst e) simp
    qed
    then have "crc32c_from acc (take (len - i) (drop i buf))
        = crc32c_from (mm_crc32_u8 acc (buf ! i)) (take (len - (i + 1)) (drop (i + 1) buf))"
      by (simp add: crc32c_from_def)
    with "1.IH"[OF True ld "1.prems"(1)] True ld show ?thesis
      by (subst crc32c_bytes.simps) simp
  qed
qed

lemma crdb_crc32c_spec:
  assumes "len \<le> length buf"
  shows "crdb_crc32c buf len = Inr (crc32c_from 0 (take len buf))"
proof -
  from crc32c_words_spec[OF assms, of 0 0]
  obtain j where j: "crc32c_words buf len 0 0 = Inr (crc32c_from 0 (take j buf), j)" "j \<le> len"
    by auto
  have "crc32c_bytes buf len (crc32c_from 0 (take j buf)) j
      = Inr (crc32c_from (crc32c_from 0 (take j buf)) (take (len - j) (drop j buf)))"
    using assms j by (intro crc32c_bytes_spec)
  also have "crc32c_from (crc32c_from 0 (take j buf)) (take (len - j) (drop j buf))
      = crc32c_from 0 (take j buf @ take (len - j) (drop j buf))"
    by (simp add: crc32c_from_append)
  also have "take j buf @ take (len - j) (drop j buf) = take len buf"
    using take_drop_step[of j len 0 buf] j by simp
  finally show ?thesis using j by (simp add: crdb_crc32c_def)
qed

text \<open>The standard check input, the nine bytes of the text \<^verbatim>\<open>123456789\<close>.\<close>

lemma crc32c_check_values:
  "crdb_crc32c [0x31, 0x32, 0x33, 0x34, 0x35, 0x36, 0x37, 0x38, 0x39] 9 = Inr 0x58E3FA20"
  "crc32c_from 0xFFFFFFFF [0x31, 0x32, 0x33, 0x34, 0x35, 0x36, 0x37, 0x38, 0x39] = 0x1CF96D7C"
  by (simp_all add: crdb_crc32c_def crc32c_words.simps crc32c_bytes.simps load_def
        crc32c_from_def crc_eval)

text \<open>
  Claim C8, as stated: for every byte string \<open>b\<close>, \<^verbatim>\<open>crdb_crc32c\<close> returns the
  Castagnoli CRC of \<open>b\<close> started from the accumulator \<open>0xFFFFFFFF\<close>, with no final
  inversion.  The source starts the accumulator at \<open>0\<close> (\<^verbatim>\<open>uint32_t acc = 0\<close>):
  on the nine bytes of the text \<^verbatim>\<open>123456789\<close> the two values differ.
\<close>

theorem crdb_crc32c_initial_value_counterexample:
  "crdb_crc32c [0x31, 0x32, 0x33, 0x34, 0x35, 0x36, 0x37, 0x38, 0x39] 9
     \<noteq> Inr (crc32c_from 0xFFFFFFFF [0x31, 0x32, 0x33, 0x34, 0x35, 0x36, 0x37, 0x38, 0x39])"
  by (simp only: crc32c_check_values) simp

text \<open>
  Claim C8, as amended: for every byte string \<open>b\<close>, \<^verbatim>\<open>crdb_crc32c\<close> returns the
  Castagnoli CRC of \<open>b\<close> (polynomial \<open>0x1EDC6F41\<close>, lemma \<open>reflected\<close>) started from
  the accumulator \<open>0\<close>, with no final inversion.  The value \<open>0xFFFFFFFF\<close> of the source
  is not the accumulator's start: it fills the \<open>crc\<close> field of the record header while
  the checksum of the record is computed.
\<close>

theorem crdb_crc32c_castagnoli:
  "crdb_crc32c b (length b) = Inr (crc32c_from 0 b)"
  using crdb_crc32c_spec[of "length b" b] by simp

section \<open>Records and the appender (record\_stream.c)\<close>

definition CRDB_RECORD_STREAM_MAX_LEN :: nat where
  "CRDB_RECORD_STREAM_MAX_LEN = 512"

definition CRDB_RECORD_STREAM_BUF_LEN :: nat where
  "CRDB_RECORD_STREAM_BUF_LEN = 2 * CRDB_RECORD_STREAM_MAX_LEN"

definition CRC_INITIAL_VALUE :: u32 where
  "CRC_INITIAL_VALUE = - 1"

text \<open>
  \<^verbatim>\<open>struct record_header { uint32_t crc; uint32_t generation; }\<close> is followed in
  \<^verbatim>\<open>struct write_record\<close> by 512 and in \<^verbatim>\<open>struct read_record\<close> by 1024 bytes of data.
  The code reads and writes these structures through their fields and, for the checksum
  and the codec, as raw bytes: a structure is modelled by its bytes, the \<open>crc\<close> in
  bytes 0 to 3, the \<open>generation\<close> in bytes 4 to 7 and the data from byte 8 on.
\<close>

definition sizeof_record_header :: nat where
  "sizeof_record_header = 8"

definition sizeof_write_record :: nat where
  "sizeof_write_record = sizeof_record_header + CRDB_RECORD_STREAM_MAX_LEN"

definition sizeof_read_record :: nat where
  "sizeof_read_record = sizeof_record_header + CRDB_RECORD_STREAM_BUF_LEN"

definition header_crc :: "byte list \<Rightarrow> u32" where
  "header_crc r = le32 (take 4 r)"

definition header_generation :: "byte list \<Rightarrow> u32" where
  "header_generation r = le32 (take 4 (drop 4 r))"

definition record_data :: "byte list \<Rightarrow> byte list" where
  "record_data r = drop sizeof_record_header r"

definition set_header_crc :: "byte list \<Rightarrow> u32 \<Rightarrow> error + byte list" where
  "set_header_crc r v = memcpy r 0 (bytes_of_u32 v) 0 4"

text \<open>
  \<^verbatim>\<open>crdb_error_set(ce, message, n)\<close> fills the caller's error and yields
  \<^verbatim>\<open>false\<close>: a function that returns \<^verbatim>\<open>bool\<close> and takes a \<^verbatim>\<open>crdb_error_t *\<close> is
  modelled as returning \<open>None\<close> for \<^verbatim>\<open>true\<close> and the error for \<^verbatim>\<open>false\<close>.
\<close>

type_synonym crdb_error = "string \<times> int"

definition crdb_error_set :: "string \<Rightarrow> int \<Rightarrow> crdb_error option" where
  "crdb_error_set message n = Some (message, n)"

definition MAX_ENCODED :: nat where
  "MAX_ENCODED = CRDB_WORD_STUFFED_BOUND sizeof_write_record"

text \<open>
  \<^verbatim>\<open>encode_record(encoded, encoded_size, record, data_len, ce)\<close>: the result holds the
  error, the bytes written to \<open>encoded\<close> (\<open>encoded_size\<close> is their number) and the
  record, whose \<open>crc\<close> field is updated in place.
\<close>

definition encode_record ::
  "byte list \<Rightarrow> nat \<Rightarrow> error + (crdb_error option \<times> byte list \<times> byte list)" where
  "encode_record record data_len =
     (if data_len > CRDB_RECORD_STREAM_MAX_LEN
      then Inr (crdb_error_set ''crdb_record_stream data too long'' 0, [], record)
      else
        (case set_header_crc record CRC_INITIAL_VALUE of
           Inl e \<Rightarrow> Inl e
         | Inr record1 \<Rightarrow>
             let record_size = sizeof_record_header + data_len
             in (case crdb_crc32c record1 record_size of
                   Inl e \<Rightarrow> Inl e
                 | Inr c \<Rightarrow>
                     (case set_header_crc record1 c of
                        Inl e \<Rightarrow> Inl e
                      | Inr record2 \<Rightarrow>
                          (case crdb_word_stuffed_size record_size True of
                             Inl e \<Rightarrow> Inl e
                           | Inr bound \<Rightarrow>
                               if \<not> bound \<le> MAX_ENCODED then Inl Assert_failed
                               else
                                 (case crdb_word_stuff_encode record2 record_size of
                                    Inl e \<Rightarrow> Inl e
                                  | Inr write_ptr \<Rightarrow>
                                      Inr (None, crdb_word_stuff_header write_ptr, record2)))))))"

text \<open>
  The file behind a descriptor opened with \<^verbatim>\<open>O_APPEND\<close>: its contents, and what the
  kernel will answer to the coming \<^verbatim>\<open>write\<close> and \<^verbatim>\<open>writev\<close> calls (how many bytes it
  accepts, or the \<^verbatim>\<open>errno\<close> of a failure).  When the list is empty a call writes
  everything.
\<close>

datatype write_outcome = Accepts nat | Fails int

record fd_state =
  fd_contents :: "byte list"
  fd_outcomes :: "write_outcome list"

definition os_write :: "fd_state \<Rightarrow> byte list \<Rightarrow> int \<times> int option \<times> fd_state" where
  "os_write fd bytes =
     (case fd_outcomes fd of
        [] \<Rightarrow> (int (length bytes), None, fd\<lparr>fd_contents := fd_contents fd @ bytes\<rparr>)
      | Accepts n # rest \<Rightarrow>
          (int (min n (length bytes)), None,
           fd\<lparr>fd_contents := fd_contents fd @ take n bytes, fd_outcomes := rest\<rparr>)
      | Fails errno # rest \<Rightarrow> (- 1, Some errno, fd\<lparr>fd_outcomes := rest\<rparr>))"

text \<open>The local variables of \<^verbatim>\<open>append_to_fd\<close> that its loop changes.\<close>

record append_state =
  a_fd :: fd_state
  a_iov0_len :: nat
  a_expected :: nat
  a_written :: int
  a_errno :: int
  a_partial_write :: bool

fun append_tries :: "nat \<Rightarrow> byte list \<Rightarrow> append_state \<Rightarrow> append_state" where
  "append_tries 0 bytes st = st"
| "append_tries (Suc n) bytes st =
     (case os_write (a_fd st) (take (a_iov0_len st) header @ bytes) of
        (written, errno, fd') \<Rightarrow>
          let st1 = st\<lparr>a_fd := fd', a_written := written,
                       a_errno := (case errno of None \<Rightarrow> a_errno st | Some e \<Rightarrow> e)\<rparr>
          in if written = int (a_expected st1) then st1
             else if written \<le> 0 then append_tries n bytes st1
             else append_tries n bytes
                    (st1\<lparr>a_partial_write := True,
                         a_iov0_len := length header,
                         a_expected := length bytes + length header\<rparr>))"

definition num_tries :: nat where
  "num_tries = 3"

definition append_to_fd ::
  "fd_state \<Rightarrow> byte list \<Rightarrow> nat \<Rightarrow> int \<Rightarrow> error + (crdb_error option \<times> fd_state)" where
  "append_to_fd fd buf count errno0 =
     (case load buf 0 count of
        Inl e \<Rightarrow> Inl e
      | Inr bytes \<Rightarrow>
          let st = append_tries num_tries bytes
                     \<lparr>a_fd = fd, a_iov0_len = 0, a_expected = count, a_written = 0,
                      a_errno = errno0, a_partial_write = False\<rparr>;
              err = a_errno st;
              fd1 = (if a_partial_write st \<and> a_written st \<noteq> int (a_expected st)
                     then snd (snd (os_write (a_fd st) (take (a_iov0_len st) header)))
                     else a_fd st)
          in if a_written st < 0
             then Inr (crdb_error_set ''record_stream write(2) failed.'' err, fd1)
             else if a_written st \<noteq> int (a_expected st)
             then Inr (crdb_error_set ''Short write in record_stream.'' 0, fd1)
             else Inr (None, fd1))"

definition record_stream_append_record ::
  "fd_state \<Rightarrow> byte list \<Rightarrow> nat \<Rightarrow> int \<Rightarrow> error + (crdb_error option \<times> fd_state)" where
  "record_stream_append_record fd record data_len errno0 =
     (case encode_record record data_len of
        Inl e \<Rightarrow> Inl e
      | Inr (Some ce, encoded, record') \<Rightarrow> Inr (Some ce, fd)
      | Inr (None, encoded, record') \<Rightarrow> append_to_fd fd encoded (length encoded) errno0)"

text \<open>
  The initialiser \<^verbatim>\<open>struct write_record record = { .header.generation = generation }\<close>
  zeroes every other byte of the record.
\<close>

definition write_record_init :: "u32 \<Rightarrow> byte list" where
  "write_record_init generation =
     bytes_of_u32 0 @ bytes_of_u32 generation @ replicate CRDB_RECORD_STREAM_MAX_LEN 0"

definition crdb_record_stream_append_buf ::
  "fd_state \<Rightarrow> u32 \<Rightarrow> byte list \<Rightarrow> nat \<Rightarrow> int \<Rightarrow> error + (crdb_error option \<times> fd_state)" where
  "crdb_record_stream_append_buf fd generation buf len errno0 =
     (let record = write_record_init generation
      in if len > CRDB_RECORD_STREAM_MAX_LEN
         then Inr (crdb_error_set ''crdb_record_stream data too long'' 0, fd)
         else
           (case memcpy record sizeof_record_header buf 0 len of
              Inl e \<Rightarrow> Inl e
            | Inr record1 \<Rightarrow> record_stream_append_record fd record1 len errno0))"

text \<open>
  \<^verbatim>\<open>crc_matches(record, total_len)\<close> resets the \<open>crc\<close> field of the record in place;
  the result holds the record after the call.
\<close>

definition crc_matches :: "byte list \<Rightarrow> nat \<Rightarrow> error + (bool \<times> byte list)" where
  "crc_matches record total_len =
     (let expected = header_crc record
      in case set_header_crc record CRC_INITIAL_VALUE of
           Inl e \<Rightarrow> Inl e
         | Inr record1 \<Rightarrow>
             (case crdb_crc32c record1 total_len of
                Inl e \<Rightarrow> Inl e
              | Inr c \<Rightarrow> Inr (expected = c, record1)))"

section \<open>Properties of the envelope and of the appender\<close>

lemma length_bytes_of_u32 [simp]: "length (bytes_of_u32 v) = 4"
  by (simp add: bytes_of_u32_def)

lemma set_header_crc_ok:
  "4 \<le> length r \<Longrightarrow> set_header_crc r v = Inr (bytes_of_u32 v @ drop 4 r)"
  by (simp add: set_header_crc_def memcpy_def)

lemma max_encoded_fits: "MAX_ENCODED \<le> CRDB_RECORD_STREAM_BUF_LEN"
  by (simp add: MAX_ENCODED_def CRDB_WORD_STUFFED_BOUND_def sizeof_write_record_def
        sizeof_record_header_def CRDB_RECORD_STREAM_MAX_LEN_def CRDB_RECORD_STREAM_BUF_LEN_def
        CRDB_WORD_STUFF_HEADER_SIZE_def)

lemma stuffed_size_record:
  assumes "n \<le> sizeof_write_record"
  shows "\<exists>b. crdb_word_stuffed_size n True = Inr b \<and> b \<le> MAX_ENCODED"
proof -
  from assms have n: "n \<le> 520"
    by (simp add: sizeof_write_record_def sizeof_record_header_def CRDB_RECORD_STREAM_MAX_LEN_def)
  then have d: "n div 64008 = 0" "(n - 252) div 64008 = 0" by simp_all
  show ?thesis using n d
    by (simp add: crdb_word_stuffed_size_def CRDB_WORD_STUFFED_BOUND_def MAX_ENCODED_def
          CRDB_WORD_STUFF_HEADER_SIZE_def SSIZE_MAX_def MAX_INITIAL_RUN_def MAX_REMAINING_RUN_def
          RADIX_def header_bytes sizeof_write_record_def sizeof_record_header_def
          CRDB_RECORD_STREAM_MAX_LEN_def Let_def)
qed

text \<open>
  Claim C9.  For every descriptor state, generation and buffer, a length above 512 makes
  \<^verbatim>\<open>crdb_record_stream_append_buf\<close> return the error at once: the descriptor's state is
  the one before the call, so nothing was written and no write was attempted.
\<close>

theorem append_buf_rejects_long:
  "len > CRDB_RECORD_STREAM_MAX_LEN \<Longrightarrow>
   crdb_record_stream_append_buf fd generation buf len errno0
     = Inr (crdb_error_set ''crdb_record_stream data too long'' 0, fd)"
  by (simp add: crdb_record_stream_append_buf_def)

theorem append_buf_rejects_long_witness:
  "(513 :: nat) > CRDB_RECORD_STREAM_MAX_LEN \<and>
   crdb_record_stream_append_buf \<lparr>fd_contents = [0xFE, 0xFD], fd_outcomes = [Accepts 100]\<rparr>
       7 (replicate 513 0x61) 513 0
     = Inr (crdb_error_set ''crdb_record_stream data too long'' 0,
            \<lparr>fd_contents = [0xFE, 0xFD], fd_outcomes = [Accepts 100]\<rparr>)"
proof -
  have h: "(513 :: nat) > CRDB_RECORD_STREAM_MAX_LEN"
    by (simp add: CRDB_RECORD_STREAM_MAX_LEN_def)
  from append_buf_rejects_long[OF h] h show ?thesis by simp
qed

section \<open>The size of the encoder's output\<close>

definition run_bound :: "bool \<Rightarrow> nat \<Rightarrow> nat" where
  "run_bound first n =
     (if first then (if n < 252 then n + 1 else n + 1 + 2 * (1 + (n - 252) div 64008))
      else n + 2 + 2 * (n div 64008))"

lemma div_step: "64008 \<le> n \<Longrightarrow> n div 64008 = Suc ((n - 64008) div 64008)" for n :: nat
  by (rule le_div_geq) simp_all

lemma run_bound_break:
  "k < max_run f \<Longrightarrow> length (run_header f k) + k \<le> run_bound f k"
  by (cases f) (simp_all add: run_bound_def length_run_header)

lemma run_bound_marker:
  assumes "k + 2 \<le> n"
  shows "length (run_header f k) + k + run_bound False (n - (k + 2)) \<le> run_bound f n"
proof (cases f)
  case False
  have "(n - (k + 2)) div 64008 \<le> n div 64008" by (rule div_le_mono) simp
  with False assms show ?thesis by (simp add: run_bound_def length_run_header)
next
  case True
  show ?thesis
  proof (cases "n < 252")
    case l: True
    then have "(n - (k + 2)) div 64008 = 0" by simp
    with True l assms show ?thesis by (simp add: run_bound_def length_run_header)
  next
    case l: False
    have "(n - (k + 2)) div 64008 \<le> (n - 252 + 64008) div 64008"
      by (rule div_le_mono) (use l in simp)
    also have "\<dots> = Suc ((n - 252) div 64008)" by simp
    finally show ?thesis using True l assms by (simp add: run_bound_def length_run_header)
  qed
qed

lemma run_bound_full:
  assumes "max_run f \<le> n"
  shows "length (run_header f (max_run f)) + max_run f + run_bound False (n - max_run f)
           \<le> run_bound f n"
proof (cases f)
  case True
  with assms show ?thesis by (simp add: run_bound_def length_run_header max_run_simps)
next
  case False
  with assms have "64008 \<le> n" by (simp add: max_run_simps)
  from div_step[OF this] False assms show ?thesis
    by (simp add: run_bound_def length_run_header max_run_simps)
qed

lemma encode_loop_length:
  "c_src_size s \<le> length (c_src s) \<Longrightarrow> encode_loop s = Inr out \<Longrightarrow>
   length out \<le> length (c_ret s) + run_bound (c_first_header s) (c_src_size s)"
proof (induction s arbitrary: out rule: encode_loop.induct)
  case (1 s)
  let ?f = "c_first_header s"
  let ?M = "max_run ?f"
  from encode_iter_spec[OF "1.prems"(1)] obtain k where kk:
    "k \<le> ?M \<and> k \<le> c_src_size s
          \<and> (\<forall>j. j + 2 \<le> k \<longrightarrow> \<not> marker_at (c_src s) j)
          \<and> encode_iter s =
               (if k < ?M \<and> k = c_src_size s
                then Inr (Break (c_ret s @ run_header ?f k @ take k (c_src s)))
                else Inr (Continue
                   \<lparr>c_ret = c_ret s @ run_header ?f k @ take k (c_src s),
                    c_src = drop (if k < ?M then k + 2 else k) (c_src s),
                    c_src_size = c_src_size s - (if k < ?M then k + 2 else k),
                    c_first_header = False\<rparr>))
          \<and> (k < ?M \<and> k < c_src_size s \<longrightarrow> k + 2 \<le> c_src_size s \<and> marker_at (c_src s) k)" ..
  then have kM: "k \<le> ?M" and ks: "k \<le> c_src_size s"
    and mk: "k < ?M \<and> k < c_src_size s \<longrightarrow> k + 2 \<le> c_src_size s"
    by simp_all
  have llit: "length (take k (c_src s)) = k" using ks "1.prems" by simp
  show ?case
  proof (cases "k < ?M \<and> k = c_src_size s")
    case True
    with kk have "encode_iter s = Inr (Break (c_ret s @ run_header ?f k @ take k (c_src s)))"
      by simp
    then have "encode_loop s = Inr (c_ret s @ run_header ?f k @ take k (c_src s))"
      by (subst encode_loop.simps) simp
    with "1.prems" have "out = c_ret s @ run_header ?f k @ take k (c_src s)" by simp
    then have "length out = length (c_ret s) + (length (run_header ?f k) + k)"
      using llit by simp
    with run_bound_break[of k ?f] True show ?thesis by simp
  next
    case False
    let ?c = "if k < ?M then k + 2 else k"
    let ?s' = "\<lparr>c_ret = c_ret s @ run_header ?f k @ take k (c_src s), c_src = drop ?c (c_src s),
                 c_src_size = c_src_size s - ?c, c_first_header = False\<rparr>"
    from False kk have ei: "encode_iter s = Inr (Continue ?s')" by simp
    have wf': "c_src_size ?s' \<le> length (c_src ?s')" using "1.prems" by simp
    have "encode_loop s = encode_loop ?s'"
      by (subst encode_loop.simps) (simp add: ei)
    with "1.prems" have "encode_loop ?s' = Inr out" by simp
    from "1.IH"[OF ei refl wf' this]
    have ih: "length out \<le> length (c_ret s) + (length (run_header ?f k) + k)
                + run_bound False (c_src_size s - ?c)"
      using llit by simp
    show ?thesis
    proof (cases "k < ?M")
      case True
      with False ks have "k < c_src_size s" by simp
      with True mk have "k + 2 \<le> c_src_size s" by simp
      from run_bound_marker[OF this, of ?f] ih True show ?thesis by simp
    next
      case f: False
      with kM have e: "k = ?M" by simp
      with ks have "?M \<le> c_src_size s" by simp
      from run_bound_full[OF this] ih f e show ?thesis by simp
    qed
  qed
qed

lemma encode_length:
  assumes "n \<le> length v" "crdb_word_stuff_encode v n = Inr enc"
  shows "length enc \<le> run_bound True n"
  using encode_loop_length[of "\<lparr>c_ret = [], c_src = v, c_src_size = n, c_first_header = True\<rparr>" enc]
    assms
  by (simp add: crdb_word_stuff_encode_def)

lemma stuffed_size_run_bound:
  "n \<le> SSIZE_MAX \<Longrightarrow> crdb_word_stuffed_size n False = Inr (run_bound True n)"
  using div_le_mono[of "n - 252" n 64008]
  by (simp add: crdb_word_stuffed_size_def run_bound_def CRDB_WORD_STUFFED_BOUND_def
        CRDB_WORD_STUFF_HEADER_SIZE_def MAX_INITIAL_RUN_def MAX_REMAINING_RUN_def RADIX_def Let_def)

lemma header_fields_append:
  "header_crc (bytes_of_u32 c @ xs) = c"
  "header_generation (bytes_of_u32 c @ bytes_of_u32 g @ ys) = g"
  "record_data (bytes_of_u32 c @ bytes_of_u32 g @ ys) = ys"
  by (simp_all add: header_crc_def header_generation_def record_data_def sizeof_record_header_def)

lemma encode_record_spec:
  assumes n: "n \<le> CRDB_RECORD_STREAM_MAX_LEN"
    and rec: "record = bytes_of_u32 oldcrc @ bytes_of_u32 g @ p @ pad"
    and lp: "length p = n"
  shows "\<exists>stuffed.
     encode_record record n
       = Inr (None, stuffed @ header,
              bytes_of_u32 (crc32c_from 0 (bytes_of_u32 CRC_INITIAL_VALUE @ bytes_of_u32 g @ p))
                @ bytes_of_u32 g @ p @ pad)
     \<and> (\<forall>rest. crdb_word_stuff_decode (stuffed @ rest) (length stuffed)
            = Inr (Decoded
                (bytes_of_u32 (crc32c_from 0 (bytes_of_u32 CRC_INITIAL_VALUE @ bytes_of_u32 g @ p))
                   @ bytes_of_u32 g @ p)))
     \<and> marker_free stuffed \<and> stuffed \<noteq> []
     \<and> length stuffed + length header \<le> MAX_ENCODED"
proof -
  let ?e1 = "bytes_of_u32 CRC_INITIAL_VALUE @ bytes_of_u32 g @ p"
  let ?c = "crc32c_from 0 ?e1"
  let ?r1 = "bytes_of_u32 CRC_INITIAL_VALUE @ bytes_of_u32 g @ p @ pad"
  let ?r2 = "bytes_of_u32 ?c @ bytes_of_u32 g @ p @ pad"
  let ?size = "sizeof_record_header + n"
  have s1: "set_header_crc record CRC_INITIAL_VALUE = Inr ?r1"
    by (simp add: rec set_header_crc_ok)
  have t1: "take ?size ?r1 = ?e1"
    by (simp add: sizeof_record_header_def lp)
  have c: "crdb_crc32c ?r1 ?size = Inr ?c"
    using crdb_crc32c_spec[of ?size ?r1] t1 by (simp add: sizeof_record_header_def lp)
  have s2: "set_header_crc ?r1 ?c = Inr ?r2"
    by (simp add: set_header_crc_ok)
  have "?size \<le> sizeof_write_record"
    using n by (simp add: sizeof_write_record_def)
  from stuffed_size_record[OF this] obtain b where
    b: "crdb_word_stuffed_size ?size True = Inr b" "b \<le> MAX_ENCODED" by auto
  have "?size \<le> length ?r2" by (simp add: sizeof_record_header_def lp)
  from encode_spec[OF this] obtain enc where enc:
    "crdb_word_stuff_encode ?r2 ?size = Inr enc
     \<and> (\<forall>rest. crdb_word_stuff_decode (enc @ rest) (length enc) = Inr (Decoded (take ?size ?r2)))
     \<and> marker_free enc \<and> enc \<noteq> [] \<and> unat (hd enc) < 253" ..
  have t2: "take ?size ?r2 = bytes_of_u32 ?c @ bytes_of_u32 g @ p"
    by (simp add: sizeof_record_header_def lp)
  have er: "encode_record record n = Inr (None, enc @ header, ?r2)"
    using n enc
    by (simp add: encode_record_def s1 c s2 b Let_def crdb_word_stuff_header_def)
  have "length enc \<le> run_bound True ?size"
    using enc \<open>?size \<le> length ?r2\<close> encode_length[of ?size ?r2 enc] by simp
  also have "\<dots> \<le> ?size + 3"
  proof -
    from n have "?size \<le> 520"
      by (simp add: sizeof_record_header_def CRDB_RECORD_STREAM_MAX_LEN_def)
    then have "(?size - 252) div 64008 = 0" by simp
    then show ?thesis by (simp add: run_bound_def)
  qed
  finally have len: "length enc + length header \<le> MAX_ENCODED"
    using n
    by (simp add: header_bytes MAX_ENCODED_def CRDB_WORD_STUFFED_BOUND_def
          sizeof_write_record_def sizeof_record_header_def CRDB_RECORD_STREAM_MAX_LEN_def
          CRDB_WORD_STUFF_HEADER_SIZE_def)
  have dec: "\<forall>rest. crdb_word_stuff_decode (enc @ rest) (length enc)
      = Inr (Decoded (bytes_of_u32 ?c @ bytes_of_u32 g @ p))"
    using enc t2 by simp
  from enc have mf: "marker_free enc" and ne: "enc \<noteq> []" by simp_all
  show ?thesis
    by (rule exI[of _ enc]) (intro conjI er dec mf ne len)
qed

text \<open>
  Claim C5 (envelope round trip).  For every generation \<open>g\<close> and payload \<open>p\<close> of at
  most 512 bytes: filling a record as \<^verbatim>\<open>crdb_record_stream_append_buf\<close> does and packing
  it with \<^verbatim>\<open>encode_record\<close> succeeds; the stuffed bytes decode to the envelope (the
  header and the payload); and \<^verbatim>\<open>crc_matches\<close> on a \<^verbatim>\<open>struct read_record\<close> that holds
  this envelope returns true, with generation \<open>g\<close> and payload \<open>p\<close> in the record.
\<close>

theorem envelope_roundtrip:
  assumes "length p \<le> CRDB_RECORD_STREAM_MAX_LEN"
    and "length dst = sizeof_read_record"
  shows "\<exists>record0 record stuffed envelope dst1 dst2.
      memcpy (write_record_init g) sizeof_record_header p 0 (length p) = Inr record0
    \<and> encode_record record0 (length p) = Inr (None, stuffed @ header, record)
    \<and> envelope = take (sizeof_record_header + length p) record
    \<and> crdb_word_stuff_decode stuffed (length stuffed) = Inr (Decoded envelope)
    \<and> memcpy dst 0 envelope 0 (length envelope) = Inr dst1
    \<and> crc_matches dst1 (length envelope) = Inr (True, dst2)
    \<and> header_generation dst2 = g
    \<and> take (length p) (record_data dst2) = p"
proof -
  let ?n = "length p"
  let ?pad = "replicate (CRDB_RECORD_STREAM_MAX_LEN - ?n) (0 :: byte)"
  let ?initial = "bytes_of_u32 0 @ bytes_of_u32 g @ p @ ?pad"
  let ?e1 = "bytes_of_u32 CRC_INITIAL_VALUE @ bytes_of_u32 g @ p"
  let ?c = "crc32c_from 0 ?e1"
  let ?env = "bytes_of_u32 ?c @ bytes_of_u32 g @ p"
  let ?packed = "bytes_of_u32 ?c @ bytes_of_u32 g @ p @ ?pad"
  have m0: "memcpy (write_record_init g) sizeof_record_header p 0 ?n = Inr ?initial"
    using assms(1)
    by (simp add: memcpy_def write_record_init_def sizeof_record_header_def
          replicate_add[symmetric] del: replicate_add)
  have "\<exists>stuffed.
     encode_record ?initial ?n = Inr (None, stuffed @ header, ?packed)
     \<and> (\<forall>rest. crdb_word_stuff_decode (stuffed @ rest) (length stuffed) = Inr (Decoded ?env))
     \<and> marker_free stuffed \<and> stuffed \<noteq> []
     \<and> length stuffed + length header \<le> MAX_ENCODED"
    by (rule encode_record_spec[OF assms(1) refl refl])
  then obtain stuffed where st0:
    "encode_record ?initial ?n = Inr (None, stuffed @ header, ?packed)
     \<and> (\<forall>rest. crdb_word_stuff_decode (stuffed @ rest) (length stuffed) = Inr (Decoded ?env))
     \<and> marker_free stuffed \<and> stuffed \<noteq> []
     \<and> length stuffed + length header \<le> MAX_ENCODED" ..
  note st = conjunct1[OF st0] conjunct1[OF conjunct2[OF st0]]
  from st(2) have dec: "crdb_word_stuff_decode stuffed (length stuffed) = Inr (Decoded ?env)"
    using spec[OF st(2), of "[]"] by simp
  have env: "take (sizeof_record_header + ?n) ?packed = ?env"
    by (simp add: sizeof_record_header_def)
  have lenv: "length ?env = 8 + ?n" by simp
  have fits: "length ?env \<le> length dst"
    using assms by (simp add: sizeof_read_record_def sizeof_record_header_def
        CRDB_RECORD_STREAM_MAX_LEN_def CRDB_RECORD_STREAM_BUF_LEN_def)
  let ?dst1 = "?env @ drop (length ?env) dst"
  have m1: "memcpy dst 0 ?env 0 (length ?env) = Inr ?dst1"
    using fits by (simp add: memcpy_def)
  let ?dst2 = "?e1 @ drop (length ?env) dst"
  have s: "set_header_crc ?dst1 CRC_INITIAL_VALUE = Inr ?dst2"
    by (simp add: set_header_crc_ok)
  have "crdb_crc32c ?dst2 (length ?env) = Inr (crc32c_from 0 (take (length ?env) ?dst2))"
    by (intro crdb_crc32c_spec) simp
  then have c: "crdb_crc32c ?dst2 (length ?env) = Inr ?c" by simp
  have cm: "crc_matches ?dst1 (length ?env) = Inr (True, ?dst2)"
    unfolding crc_matches_def Let_def s sum.case c
    by (simp add: header_fields_append)
  have g: "header_generation ?dst2 = g" by (simp add: header_fields_append)
  have d: "take ?n (record_data ?dst2) = p" by (simp add: header_fields_append)
  show ?thesis
    apply (rule exI[of _ ?initial], rule exI[of _ ?packed], rule exI[of _ stuffed])
    apply (rule exI[of _ ?env], rule exI[of _ ?dst1], rule exI[of _ ?dst2])
    apply (intro conjI m0 st(1) env[symmetric] dec m1 cm g d)
    done
qed

theorem envelope_roundtrip_witness:
  "length [0x68, 0x69 :: byte] \<le> CRDB_RECORD_STREAM_MAX_LEN
   \<and> length (replicate 1032 (0 :: byte)) = sizeof_read_record
   \<and> (\<exists>record0 record stuffed envelope dst1 dst2.
      memcpy (write_record_init 7) sizeof_record_header [0x68, 0x69] 0 (length [0x68, 0x69 :: byte])
        = Inr record0
    \<and> encode_record record0 (length [0x68, 0x69 :: byte]) = Inr (None, stuffed @ header, record)
    \<and> envelope = take (sizeof_record_header + length [0x68, 0x69 :: byte]) record
    \<and> crdb_word_stuff_decode stuffed (length stuffed) = Inr (Decoded envelope)
    \<and> memcpy (replicate 1032 0) 0 envelope 0 (length envelope) = Inr dst1
    \<and> crc_matches dst1 (length envelope) = Inr (True, dst2)
    \<and> header_generation dst2 = 7
    \<and> take (length [0x68, 0x69 :: byte]) (record_data dst2) = [0x68, 0x69])"
proof -
  have h1: "length [0x68, 0x69 :: byte] \<le> CRDB_RECORD_STREAM_MAX_LEN"
    by (simp add: CRDB_RECORD_STREAM_MAX_LEN_def)
  have h2: "length (replicate 1032 (0 :: byte)) = sizeof_read_record"
    by (simp add: sizeof_read_record_def sizeof_record_header_def
          CRDB_RECORD_STREAM_BUF_LEN_def CRDB_RECORD_STREAM_MAX_LEN_def)
  show ?thesis by (intro conjI h1 h2 envelope_roundtrip[OF h1 h2])
qed

section \<open>The iterator (record\_stream.c)\<close>

text \<open>
  The iterator holds pointers into the buffer it scans, and \<^verbatim>\<open>NULL\<close> once it has
  reached the end: here a pointer is an address, \<^verbatim>\<open>NULL\<close> is the address 0, and the
  buffer is an object of the memory, given by its address and its bytes.  Reading through
  a pointer reads the bytes from that address to the end of the object; a pointer outside
  the object reads nothing.  The difference of two pointers is taken as \<^verbatim>\<open>size_t\<close>, so
  it wraps around when the first one is the smaller.
\<close>

record memory =
  m_base :: nat
  m_bytes :: "byte list"

definition deref :: "memory \<Rightarrow> nat \<Rightarrow> byte list" where
  "deref m p =
     (if m_base m \<le> p \<and> p \<le> m_base m + length (m_bytes m)
      then drop (p - m_base m) (m_bytes m) else [])"

definition ptr_diff :: "nat \<Rightarrow> nat \<Rightarrow> nat" where
  "ptr_diff p q = (if q \<le> p then p - q else 2 ^ 64 + p - q)"

record iterator =
  it_cursor :: nat
  it_end :: nat
  it_stop_at :: nat
  it_begin :: nat
  it_header :: nat
  it_mapped :: nat
  it_map_size :: nat
  it_first_record :: bool
  it_first_nonzero :: nat

definition crdb_record_stream_iterator_init_buf :: "nat \<Rightarrow> nat \<Rightarrow> iterator" where
  "crdb_record_stream_iterator_init_buf buf sz =
     \<lparr>it_cursor = buf, it_end = buf + sz, it_stop_at = buf + sz, it_begin = buf,
      it_header = 0, it_mapped = 0, it_map_size = 0, it_first_record = True,
      it_first_nonzero = buf\<rparr>"

definition crdb_record_stream_iterator_size :: "iterator \<Rightarrow> nat" where
  "crdb_record_stream_iterator_size it = ptr_diff (it_end it) (it_begin it)"



text \<open>
  \<^verbatim>\<open>record_stream_iterator_next_record(it, dst)\<close>.  The result holds the returned size
  (or \<open>-1\<close>), the iterator and the \<^verbatim>\<open>struct read_record\<close> behind \<open>dst\<close> after the
  call.  The first part finds where the candidate starts; \<open>Break\<close> is the jump to
  \<^verbatim>\<open>eof\<close>.
\<close>

definition next_record_start :: "memory \<Rightarrow> iterator \<Rightarrow> error + (iterator \<times> nat, iterator) iter" where
  "next_record_start m it =
     (if it_first_record it
      then Inr (Continue (it\<lparr>it_first_record := False, it_header := it_cursor it\<rparr>,
                          it_cursor it))
      else
        (case crdb_word_stuff_header_find (deref m (it_cursor it))
                (ptr_diff (it_end it) (it_cursor it)) of
           Inl e \<Rightarrow> Inl e
         | Inr k \<Rightarrow>
             let first_header = it_cursor it + k
             in if first_header \<ge> it_stop_at it then Inr (Break it)
                else
                  let encoded_data = first_header + CRDB_WORD_STUFF_HEADER_SIZE
                  in if encoded_data \<le> it_end it
                     then Inr (Continue (it\<lparr>it_header := first_header\<rparr>, encoded_data))
                     else Inl Assert_failed))"

definition record_stream_iterator_next_record ::
  "memory \<Rightarrow> iterator \<Rightarrow> byte list \<Rightarrow> error + (int \<times> iterator \<times> byte list)" where
  "record_stream_iterator_next_record m it dst =
     (case next_record_start m it of
        Inl e \<Rightarrow> Inl e
      | Inr (Break it1) \<Rightarrow> Inr (- 1, it1\<lparr>it_cursor := it_end it1\<rparr>, dst)
      | Inr (Continue (it1, encoded_data)) \<Rightarrow>
          if it_header it1 \<ge> it_stop_at it1
          then Inr (- 1, it1\<lparr>it_cursor := it_end it1\<rparr>, dst)
          else
            (case crdb_word_stuff_header_find (deref m encoded_data)
                    (ptr_diff (it_end it1) encoded_data) of
               Inl e \<Rightarrow> Inl e
             | Inr encoded_len \<Rightarrow>
                 let next_header = encoded_data + encoded_len;
                     it2 = it1\<lparr>it_cursor := next_header\<rparr>
                 in if encoded_len > CRDB_RECORD_STREAM_BUF_LEN then Inr (- 1, it2, dst)
                    else
                      (case crdb_word_stuff_decode (deref m encoded_data) encoded_len of
                         Inl e \<Rightarrow> Inl e
                       | Inr r \<Rightarrow>
                           (case memcpy dst 0 (bytes_written r) 0 (length (bytes_written r)) of
                              Inl e \<Rightarrow> Inl e
                            | Inr dst1 \<Rightarrow>
                                (case r of
                                   Rejected out \<Rightarrow> Inr (- 1, it2, dst1)
                                 | Decoded out \<Rightarrow>
                                     let decoded_len = length out
                                     in if decoded_len < sizeof_record_header
                                        then Inr (- 1, it2, dst1)
                                        else
                                          (case crc_matches dst1 decoded_len of
                                             Inl e \<Rightarrow> Inl e
                                           | Inr (ok, dst2) \<Rightarrow>
                                               if \<not> ok then Inr (- 1, it2, dst2)
                                               else Inr (int decoded_len
                                                           - int sizeof_record_header,
                                                         it2, dst2)))))))"

text \<open>
  The loop of \<^verbatim>\<open>record_stream_iterator_next\<close> ends: a call of
  \<^verbatim>\<open>record_stream_iterator_next_record\<close> that returns either consumes the first record
  or moves the cursor towards the end.
\<close>

definition remaining :: "iterator \<Rightarrow> nat" where
  "remaining it =
     (if it_cursor it \<le> it_end it then it_end it - it_cursor it else it_end it + 1)"

lemma next_record_start_progress:
  assumes "next_record_start m it = Inr (Continue (it1, encoded_data))"
  shows "it_end it1 = it_end it \<and> it_stop_at it1 = it_stop_at it \<and> \<not> it_first_record it1
       \<and> (\<not> it_first_record it \<longrightarrow> it_cursor it + 2 \<le> encoded_data \<and> encoded_data \<le> it_end it
             \<and> it_header it1 < it_stop_at it)"
  using assms
  by (auto simp: next_record_start_def Let_def CRDB_WORD_STUFF_HEADER_SIZE_def
      split: if_splits sum.splits)

lemma next_record_progress:
  assumes "record_stream_iterator_next_record m it dst = Inr (r, it', dst')"
    and "it_cursor it < it_stop_at it"
  shows "\<not> it_first_record it' \<and> it_end it' = it_end it \<and> it_stop_at it' = it_stop_at it
       \<and> (\<not> it_first_record it \<longrightarrow> remaining it' < remaining it)"
proof (cases "next_record_start m it")
  case (Inl e)
  with assms show ?thesis by (simp add: record_stream_iterator_next_record_def)
next
  case (Inr x)
  show ?thesis
  proof (cases x)
    case (Break it1)
    with Inr have nf: "\<not> it_first_record it" and it1: "it1 = it"
      by (auto simp: next_record_start_def Let_def split: if_splits sum.splits)
    from Break Inr assms(1) it1 have it': "it' = it\<lparr>it_cursor := it_end it\<rparr>"
      by (simp add: record_stream_iterator_next_record_def)
    from Break Inr nf obtain k where
      k: "crdb_word_stuff_header_find (deref m (it_cursor it))
                (ptr_diff (it_end it) (it_cursor it)) = Inr k"
         "it_cursor it + k \<ge> it_stop_at it"
      by (auto simp: next_record_start_def Let_def split: if_splits sum.splits)
    from header_find_le[OF k(1)] have "k \<le> ptr_diff (it_end it) (it_cursor it)" .
    with k(2) assms(2) have "it_cursor it \<noteq> it_end it"
      by (auto simp: ptr_diff_def)
    then have "remaining it' < remaining it"
      by (auto simp: it' remaining_def)
    with nf it' show ?thesis by simp
  next
    case (Continue p)
    obtain it1 encoded_data where p: "p = (it1, encoded_data)" by (cases p)
    note st = next_record_start_progress[OF Inr[unfolded Continue p]]
    show ?thesis
    proof (cases "it_header it1 \<ge> it_stop_at it1")
      case True
      with st have f: "it_first_record it" by auto
      from True Inr Continue p assms(1) have "it' = it1\<lparr>it_cursor := it_end it1\<rparr>"
        by (simp add: record_stream_iterator_next_record_def)
      with st f show ?thesis by simp
    next
      case False
      with Inr Continue p assms(1) obtain encoded_len where
        el: "crdb_word_stuff_header_find (deref m encoded_data)
                    (ptr_diff (it_end it1) encoded_data) = Inr encoded_len"
        and it': "it' = it1\<lparr>it_cursor := encoded_data + encoded_len\<rparr>"
        by (auto simp: record_stream_iterator_next_record_def Let_def
            split: if_splits sum.splits decoded.splits prod.splits)
      from header_find_le[OF el] have le: "encoded_len \<le> ptr_diff (it_end it1) encoded_data" .
      have "\<not> it_first_record it \<longrightarrow> remaining it' < remaining it"
      proof
        assume nf: "\<not> it_first_record it"
        with st have b: "it_cursor it + 2 \<le> encoded_data" "encoded_data \<le> it_end it" by simp_all
        with le st have "encoded_data + encoded_len \<le> it_end it" by (simp add: ptr_diff_def)
        with b show "remaining it' < remaining it"
          using st by (simp add: it' remaining_def)
      qed
      with st it' show ?thesis by simp
    qed
  qed
qed

function record_stream_iterator_next ::
  "memory \<Rightarrow> iterator \<Rightarrow> byte list \<Rightarrow> error + (int \<times> iterator \<times> byte list)" where
  "record_stream_iterator_next m it dst =
     (if it_cursor it < it_stop_at it then
        (case record_stream_iterator_next_record m it dst of
           Inl e \<Rightarrow> Inl e
         | Inr (r, it', dst') \<Rightarrow>
             if r \<ge> 0 then Inr (r, it', dst')
             else record_stream_iterator_next m it' dst')
      else Inr (- 1, it\<lparr>it_cursor := 0, it_end := 0\<rparr>, dst))"
  by pat_completeness auto
termination
proof (relation "measures [\<lambda>(m, it, dst). if it_first_record it then 1 else 0,
                            \<lambda>(m, it, dst). remaining it]")
  show "wf (measures [\<lambda>(m, it, dst). if it_first_record it then 1 else 0,
                            \<lambda>(m, it, dst). remaining it])"
    by simp
next
  fix m it dst x r y it' dst'
  assume "it_cursor it < it_stop_at it"
    and "record_stream_iterator_next_record m it dst = Inr x"
    and "(r, y) = x" and "(it', dst') = y" and "\<not> 0 \<le> r"
  then have "record_stream_iterator_next_record m it dst = Inr (r, it', dst')" by simp
  from next_record_progress[OF this \<open>it_cursor it < it_stop_at it\<close>]
  show "((m, it', dst'), m, it, dst)
         \<in> measures [\<lambda>(m, it, dst). if it_first_record it then 1 else 0,
                      \<lambda>(m, it, dst). remaining it]"
    by auto
qed

declare record_stream_iterator_next.simps [simp del]

text \<open>
  \<^verbatim>\<open>crdb_record_stream_iterator_next_buf(it, generation, dst, len)\<close>.  The local
  \<^verbatim>\<open>struct read_record buf\<close> is not initialised: \<open>buf\<close> stands for the bytes it
  holds when the function is entered.  The result holds the returned \<^verbatim>\<open>bool\<close>, the
  iterator, \<^verbatim>\<open>*generation\<close>, the bytes of \<open>dst\<close> and \<^verbatim>\<open>*len\<close>.
\<close>

definition crdb_record_stream_iterator_next_buf ::
  "memory \<Rightarrow> iterator \<Rightarrow> byte list \<Rightarrow> byte list
     \<Rightarrow> error + (bool \<times> iterator \<times> u32 \<times> byte list \<times> nat)" where
  "crdb_record_stream_iterator_next_buf m it dst buf =
     (let generation = 0; len = 0
      in case record_stream_iterator_next m it buf of
           Inl e \<Rightarrow> Inl e
         | Inr (payload_size, it', buf') \<Rightarrow>
             if payload_size < 0 then Inr (False, it', generation, dst, len)
             else if \<not> payload_size \<le> int CRDB_RECORD_STREAM_BUF_LEN then Inl Assert_failed
             else
               (case memcpy dst 0 buf' sizeof_record_header (nat payload_size) of
                  Inl e \<Rightarrow> Inl e
                | Inr dst' \<Rightarrow>
                    Inr (True, it', header_generation buf', dst', nat payload_size)))"

section \<open>Properties of the iterator\<close>

lemma crc_matches_prefix:
  assumes "sizeof_record_header \<le> length out" "length out \<le> length dst"
  shows "crc_matches (out @ drop (length out) dst) (length out)
       = Inr (header_crc out
                = crc32c_from 0 (bytes_of_u32 CRC_INITIAL_VALUE @ drop 4 out),
              bytes_of_u32 CRC_INITIAL_VALUE @ drop 4 out @ drop (length out) dst)"
proof -
  let ?d1 = "out @ drop (length out) dst"
  let ?fixed = "bytes_of_u32 CRC_INITIAL_VALUE @ drop 4 out"
  from assms have l4: "4 \<le> length out" by (simp add: sizeof_record_header_def)
  have s: "set_header_crc ?d1 CRC_INITIAL_VALUE = Inr (?fixed @ drop (length out) dst)"
    using l4 by (simp add: set_header_crc_ok)
  have lf: "length ?fixed = length out" using l4 by simp
  have "crdb_crc32c (?fixed @ drop (length out) dst) (length out)
      = Inr (crc32c_from 0 (take (length out) (?fixed @ drop (length out) dst)))"
    using lf by (intro crdb_crc32c_spec) simp
  also have "take (length out) (?fixed @ drop (length out) dst) = ?fixed"
    using lf by simp
  finally have c: "crdb_crc32c (?fixed @ drop (length out) dst) (length out)
      = Inr (crc32c_from 0 ?fixed)" .
  have e: "header_crc ?d1 = header_crc out"
    using l4 by (simp add: header_crc_def)
  show ?thesis
    unfolding crc_matches_def Let_def s sum.case c e by simp
qed

lemma next_record_verified:
  assumes "record_stream_iterator_next_record m it dst = Inr (r, it', dst')" and "0 \<le> r"
  shows "\<exists>start len envelope.
             (start = it_header it' \<or> start = it_header it' + 2) \<and> start + len = it_cursor it'
           \<and> crdb_word_stuff_decode (deref m start) len = Inr (Decoded envelope)
           \<and> length envelope = nat r + sizeof_record_header
           \<and> crdb_crc32c (bytes_of_u32 CRC_INITIAL_VALUE @ drop 4 envelope) (length envelope)
                = Inr (header_crc envelope)
           \<and> header_generation dst' = header_generation envelope
           \<and> take (nat r) (record_data dst') = record_data envelope"
proof -
  from assms obtain it1 encoded_data where
    st: "next_record_start m it = Inr (Continue (it1, encoded_data))"
    by (auto simp: record_stream_iterator_next_record_def
        split: sum.splits iter.splits prod.splits if_splits)
  then have ed: "encoded_data = it_header it1 \<or> encoded_data = it_header it1 + 2"
    by (auto simp: next_record_start_def Let_def CRDB_WORD_STUFF_HEADER_SIZE_def
        split: if_splits sum.splits)
  from assms st obtain encoded_len out dst1 ok where
    el: "crdb_word_stuff_header_find (deref m encoded_data)
           (ptr_diff (it_end it1) encoded_data) = Inr encoded_len"
    and it': "it' = it1\<lparr>it_cursor := encoded_data + encoded_len\<rparr>"
    and dec: "crdb_word_stuff_decode (deref m encoded_data) encoded_len = Inr (Decoded out)"
    and cp: "memcpy dst 0 out 0 (length out) = Inr dst1"
    and big: "sizeof_record_header \<le> length out"
    and cm: "crc_matches dst1 (length out) = Inr (True, dst')"
    and r: "r = int (length out) - int sizeof_record_header"
    by (auto simp: record_stream_iterator_next_record_def Let_def
        split: sum.splits iter.splits prod.splits if_splits decoded.splits)
  from cp have fit: "length out \<le> length dst" and dst1: "dst1 = out @ drop (length out) dst"
    by (auto simp: memcpy_def load_def split: if_splits)
  let ?fixed = "bytes_of_u32 CRC_INITIAL_VALUE @ drop 4 out"
  from crc_matches_prefix[OF big fit] cm dst1
  have crc: "header_crc out = crc32c_from 0 ?fixed"
    and dst': "dst' = bytes_of_u32 CRC_INITIAL_VALUE @ drop 4 out @ drop (length out) dst"
    by simp_all
  from big have l8: "8 \<le> length out" by (simp add: sizeof_record_header_def)
  have lf: "length ?fixed = length out" using l8 by simp
  have c: "crdb_crc32c ?fixed (length out) = Inr (header_crc out)"
    using crdb_crc32c_spec[of "length out" ?fixed] lf crc by simp
  have g: "header_generation dst' = header_generation out"
    using l8 by (simp add: dst' header_generation_def)
  have nr: "nat r = length out - 8" using r l8 by (simp add: sizeof_record_header_def)
  have d: "take (nat r) (record_data dst') = record_data out"
    using l8 by (simp add: dst' nr record_data_def sizeof_record_header_def)
  have len: "length out = nat r + sizeof_record_header"
    using nr l8 by (simp add: sizeof_record_header_def)
  show ?thesis
    apply (rule exI[of _ encoded_data], rule exI[of _ encoded_len], rule exI[of _ out])
    using ed it' dec len c g d by simp
qed

text \<open>
  Whatever the memory and the state of the iterator, a call of
  \<^verbatim>\<open>record_stream_iterator_next\<close> that returns reports either the end of the stream
  (\<open>-1\<close>, with the cursor and the end of the iterator reset) or a record.  A record comes
  from a region of the stream that the codec decodes to an envelope whose stored \<open>crc\<close>
  field is the CRC32C of the envelope with that field set to \<open>0xFFFFFFFF\<close>; the
  generation and the payload reported are those of this envelope.  Regions that do not
  decode or do not verify are skipped.
\<close>

lemma next_verified:
  "record_stream_iterator_next m it dst = Inr (r, it', dst') \<Longrightarrow>
   (r = - 1 \<and> it_cursor it' = 0 \<and> it_end it' = 0)
   \<or> (0 \<le> r \<and> (\<exists>start len envelope.
             (start = it_header it' \<or> start = it_header it' + 2) \<and> start + len = it_cursor it'
           \<and> crdb_word_stuff_decode (deref m start) len = Inr (Decoded envelope)
           \<and> length envelope = nat r + sizeof_record_header
           \<and> crdb_crc32c (bytes_of_u32 CRC_INITIAL_VALUE @ drop 4 envelope) (length envelope)
                = Inr (header_crc envelope)
           \<and> header_generation dst' = header_generation envelope
           \<and> take (nat r) (record_data dst') = record_data envelope))"
proof (induction m it dst rule: record_stream_iterator_next.induct)
  case (1 m it dst)
  show ?case
  proof (cases "it_cursor it < it_stop_at it")
    case False
    with "1.prems" show ?thesis
      by (subst (asm) record_stream_iterator_next.simps) auto
  next
    case True
    with "1.prems" obtain r1 it1 dst1 where
      nr: "record_stream_iterator_next_record m it dst = Inr (r1, it1, dst1)"
      by (subst (asm) record_stream_iterator_next.simps) (auto split: sum.splits)
    show ?thesis
    proof (cases "0 \<le> r1")
      case r: True
      with True nr "1.prems" have "r = r1" "it' = it1" "dst' = dst1"
        by (subst (asm) record_stream_iterator_next.simps, simp)+
      with next_record_verified[OF nr r] r show ?thesis by simp
    next
      case r: False
      with True nr "1.prems" have "record_stream_iterator_next m it1 dst1 = Inr (r, it', dst')"
        by (subst (asm) record_stream_iterator_next.simps) simp
      from "1.IH"[OF True nr refl refl r this] show ?thesis .
    qed
  qed
qed

text \<open>
  Claim C10.  When \<^verbatim>\<open>crdb_record_stream_iterator_next_buf\<close> returns false it has set
  \<^verbatim>\<open>*generation\<close> and \<^verbatim>\<open>*len\<close> to 0 and \<open>dst\<close> holds the bytes it held before.
  When it returns true, \<^verbatim>\<open>*generation\<close> and \<^verbatim>\<open>*len\<close> are the generation and the size
  of the record that \<^verbatim>\<open>record_stream_iterator_next\<close> found, the first \<^verbatim>\<open>*len\<close> bytes of
  \<open>dst\<close> are the payload of that record and the other bytes of \<open>dst\<close> are unchanged.
\<close>

theorem next_buf_frame:
  "crdb_record_stream_iterator_next_buf m it dst buf = Inr (ok, it', generation, dst', len) \<Longrightarrow>
   (if ok then
      (\<exists>buf'. record_stream_iterator_next m it buf = Inr (int len, it', buf')
         \<and> generation = header_generation buf'
         \<and> len \<le> CRDB_RECORD_STREAM_BUF_LEN \<and> len \<le> length dst
         \<and> length (take len (record_data buf')) = len
         \<and> dst' = take len (record_data buf') @ drop len dst)
    else generation = 0 \<and> len = 0 \<and> dst' = dst)"
proof -
  assume a: "crdb_record_stream_iterator_next_buf m it dst buf = Inr (ok, it', generation, dst', len)"
  then obtain payload_size it1 buf' where
    n: "record_stream_iterator_next m it buf = Inr (payload_size, it1, buf')"
    by (auto simp: crdb_record_stream_iterator_next_buf_def split: sum.splits)
  show ?thesis
  proof (cases "payload_size < 0")
    case True
    with a n show ?thesis
      by (simp add: crdb_record_stream_iterator_next_buf_def)
  next
    case False
    with a n have le: "payload_size \<le> int CRDB_RECORD_STREAM_BUF_LEN"
      and cp: "memcpy dst 0 buf' sizeof_record_header (nat payload_size) = Inr dst'"
      and res: "ok" "it' = it1" "generation = header_generation buf'" "len = nat payload_size"
      by (auto simp: crdb_record_stream_iterator_next_buf_def split: sum.splits if_splits)
    from cp have b: "sizeof_record_header + len \<le> length buf'" "len \<le> length dst"
      and d: "dst' = take len (drop sizeof_record_header buf') @ drop len dst"
      using res(4) by (auto simp: memcpy_def load_def split: if_splits)
    have l: "length (take len (record_data buf')) = len"
      using b by (simp add: record_data_def)
    from False res(4) have ps: "payload_size = int len" by simp
    show ?thesis
      using res n le b l d ps by (auto simp: record_data_def)
  qed
qed

lemmas codec_eval = crdb_word_stuff_header_find_def header_find_loop.simps load_def header_bytes
  CRDB_WORD_STUFF_HEADER_SIZE_def crdb_word_stuff_decode_def decode_loop.simps decode_iter_def
  decode_run_size_def copy_run_ok CONSUME_def MAX_INITIAL_RUN_def MAX_REMAINING_RUN_def RADIX_def
  crdb_word_stuff_header_def Let_def

lemma byte_255: "(255 :: byte) = - 1"
  by simp

lemma bytes_of_initial_value:
  "bytes_of_u32 CRC_INITIAL_VALUE = [0xFF, 0xFF, 0xFF, 0xFF]"
  unfolding CRC_INITIAL_VALUE_def bytes_of_u32_def
  by (simp; intro conjI; rule bit_word_eqI; auto simp: bit_simps byte_255)

lemmas iterator_eval = record_stream_iterator_next.simps record_stream_iterator_next_record_def
  next_record_start_def crdb_record_stream_iterator_init_buf_def deref_def ptr_diff_def
  CRDB_RECORD_STREAM_BUF_LEN_def CRDB_RECORD_STREAM_MAX_LEN_def sizeof_record_header_def
  memcpy_def crc_matches_def set_header_crc_def header_crc_def header_generation_def
  record_data_def bytes_of_initial_value crdb_crc32c_spec

lemma example_header_find:
  "crdb_word_stuff_header_find [10, 0x29, 0x5D, 0x97, 0x9E, 7, 0, 0, 0, 0x68, 0x69, 0xFE, 0xFD] 13 = Inr 11"
  by (simp add: codec_eval)

lemma example_decode:
  "crdb_word_stuff_decode [10, 0x29, 0x5D, 0x97, 0x9E, 7, 0, 0, 0, 0x68, 0x69, 0xFE, 0xFD] 11
     = Inr (Decoded [0x29, 0x5D, 0x97, 0x9E, 7, 0, 0, 0, 0x68, 0x69])"
  by (simp add: codec_eval)

lemma example_crc:
  "crc32c_from 0 [0xFF, 0xFF, 0xFF, 0xFF, 7, 0, 0, 0, 0x68, 0x69] = 0x9E975D29"
  by (simp add: crc32c_from_def crc_eval)

definition example_stream :: memory where
  "example_stream =
     \<lparr>m_base = 4096,
      m_bytes = [10, 0x29, 0x5D, 0x97, 0x9E, 7, 0, 0, 0, 0x68, 0x69, 0xFE, 0xFD]\<rparr>"

lemma example_next:
  "record_stream_iterator_next example_stream (crdb_record_stream_iterator_init_buf 4096 13)
       (replicate 1032 0)
     = Inr (2, \<lparr>it_cursor = 4107, it_end = 4109, it_stop_at = 4109, it_begin = 4096,
                it_header = 4096, it_mapped = 0, it_map_size = 0,
                it_first_record = False, it_first_nonzero = 4096\<rparr>,
            [0xFF, 0xFF, 0xFF, 0xFF, 7, 0, 0, 0, 0x68, 0x69] @ replicate 1022 0)"
  by (simp add: example_stream_def iterator_eval example_header_find example_decode example_crc
        codec_eval)

lemma example_next_buf:
  "crdb_record_stream_iterator_next_buf example_stream
       (crdb_record_stream_iterator_init_buf 4096 13) (replicate 1024 0) (replicate 1032 0)
     = Inr (True, \<lparr>it_cursor = 4107, it_end = 4109, it_stop_at = 4109, it_begin = 4096,
                it_header = 4096, it_mapped = 0, it_map_size = 0,
                it_first_record = False, it_first_nonzero = 4096\<rparr>,
            7, [0x68, 0x69] @ replicate 1022 0, 2)"
  by (simp add: crdb_record_stream_iterator_next_buf_def example_next
        CRDB_RECORD_STREAM_BUF_LEN_def CRDB_RECORD_STREAM_MAX_LEN_def sizeof_record_header_def
        memcpy_def load_def header_generation_def)

lemma example_empty_next_buf:
  "crdb_record_stream_iterator_next_buf \<lparr>m_base = 4096, m_bytes = []\<rparr>
       (crdb_record_stream_iterator_init_buf 4096 0) [1, 2, 3] (replicate 1032 0)
     = Inr (False, \<lparr>it_cursor = 0, it_end = 0, it_stop_at = 4096, it_begin = 4096,
                it_header = 0, it_mapped = 0, it_map_size = 0,
                it_first_record = True, it_first_nonzero = 4096\<rparr>,
            0, [1, 2, 3], 0)"
  by (simp add: crdb_record_stream_iterator_next_buf_def record_stream_iterator_next.simps
        crdb_record_stream_iterator_init_buf_def)

theorem next_buf_frame_witness:
  "crdb_record_stream_iterator_next_buf example_stream
       (crdb_record_stream_iterator_init_buf 4096 13) (replicate 1024 0) (replicate 1032 0)
     = Inr (True, \<lparr>it_cursor = 4107, it_end = 4109, it_stop_at = 4109, it_begin = 4096,
                it_header = 4096, it_mapped = 0, it_map_size = 0,
                it_first_record = False, it_first_nonzero = 4096\<rparr>,
            7, [0x68, 0x69] @ replicate 1022 0, 2)
   \<and> (\<exists>buf'. record_stream_iterator_next example_stream
                  (crdb_record_stream_iterator_init_buf 4096 13) (replicate 1032 0)
                = Inr (2, \<lparr>it_cursor = 4107, it_end = 4109, it_stop_at = 4109, it_begin = 4096,
                        it_header = 4096, it_mapped = 0, it_map_size = 0,
                        it_first_record = False, it_first_nonzero = 4096\<rparr>, buf')
         \<and> (7 :: u32) = header_generation buf'
         \<and> [0x68, 0x69] @ replicate 1022 0 = take 2 (record_data buf') @ drop 2 (replicate 1024 0))
   \<and> crdb_record_stream_iterator_next_buf \<lparr>m_base = 4096, m_bytes = []\<rparr>
       (crdb_record_stream_iterator_init_buf 4096 0) [1, 2, 3] (replicate 1032 0)
     = Inr (False, \<lparr>it_cursor = 0, it_end = 0, it_stop_at = 4096, it_begin = 4096,
                it_header = 0, it_mapped = 0, it_map_size = 0,
                it_first_record = True, it_first_nonzero = 4096\<rparr>,
            0, [1, 2, 3], 0)"
  using next_buf_frame[OF example_next_buf] example_next_buf example_empty_next_buf
    next_buf_frame[OF example_empty_next_buf]
  by auto

text \<open>A stream of one byte \<open>0x00\<close> at address 4096, and its iterator after the call
  that reaches the end.\<close>

definition one_zero_byte :: memory where
  "one_zero_byte = \<lparr>m_base = 4096, m_bytes = [0]\<rparr>"

definition after_end :: iterator where
  "after_end = \<lparr>it_cursor = 0, it_end = 0, it_stop_at = 4097, it_begin = 4096,
                 it_header = 4096, it_mapped = 0, it_map_size = 0,
                 it_first_record = False, it_first_nonzero = 4096\<rparr>"

lemma first_call_signals_end:
  "record_stream_iterator_next one_zero_byte (crdb_record_stream_iterator_init_buf 4096 1)
       (replicate 1032 0)
     = Inr (- 1, after_end, replicate 1032 0)"
  by (simp add: one_zero_byte_def after_end_def iterator_eval codec_eval)

text \<open>
  Claim C6 says that once \<^verbatim>\<open>record_stream_iterator_next\<close> has signalled the end of the
  stream, every later call signals it again.  At the end the function resets
  \<^verbatim>\<open>it->cursor\<close> and \<^verbatim>\<open>it->end\<close> to \<^verbatim>\<open>NULL\<close> and leaves \<^verbatim>\<open>it->stop_at\<close>, so the
  guard \<^verbatim>\<open>it->cursor < it->stop_at\<close> of its loop holds again on the next call whenever
  the buffer is not at \<^verbatim>\<open>NULL\<close>.  Over the one byte \<open>0x00\<close> at address 4096 the first
  call signals the end, and the second fails \<^verbatim>\<open>assert(encoded_data <= it->end)\<close>.
\<close>

theorem next_after_end_fails:
  "record_stream_iterator_next one_zero_byte (crdb_record_stream_iterator_init_buf 4096 1)
       (replicate 1032 0)
     = Inr (- 1, after_end, replicate 1032 0)
   \<and> record_stream_iterator_next one_zero_byte after_end (replicate 1032 0) = Inl Assert_failed
   \<and> crdb_record_stream_iterator_next_buf one_zero_byte after_end (replicate 1024 0)
         (replicate 1032 0) = Inl Assert_failed"
proof -
  have second: "record_stream_iterator_next one_zero_byte after_end (replicate 1032 0)
      = Inl Assert_failed"
    by (simp add: one_zero_byte_def after_end_def iterator_eval codec_eval)
  then have "crdb_record_stream_iterator_next_buf one_zero_byte after_end (replicate 1024 0)
         (replicate 1032 0) = Inl Assert_failed"
    by (simp add: crdb_record_stream_iterator_next_buf_def)
  with first_call_signals_end second show ?thesis by simp
qed

text \<open>
  Only an iterator whose \<^verbatim>\<open>stop_at\<close> is \<^verbatim>\<open>NULL\<close> (the iterator of an empty file) stays at
  the end.
\<close>

lemma next_at_null_stays:
  "it_stop_at it = 0 \<Longrightarrow>
   record_stream_iterator_next m it dst = Inr (- 1, it\<lparr>it_cursor := 0, it_end := 0\<rparr>, dst)"
  by (subst record_stream_iterator_next.simps) simp

section \<open>Iterating over a stream\<close>

text \<open>
  The sequence of records that an iterator yields: the caller's loop, which calls
  \<^verbatim>\<open>crdb_record_stream_iterator_next_buf\<close> until it returns false and keeps the generation
  and the first \<^verbatim>\<open>*len\<close> bytes of \<open>dst\<close> of every call that returned true, together with
  the offset in the stream at which the iterator found the record
  (\<^verbatim>\<open>it->header - it->begin\<close>: its marker, or the start of the stream for the first record).
\<close>

lemma next_progress:
  "record_stream_iterator_next m it dst = Inr (r, it', dst') \<Longrightarrow> 0 \<le> r \<Longrightarrow>
   ((m, it', dst'), (m, it, dst))
     \<in> measures [\<lambda>(m, it, dst). if it_first_record it then 1 else 0,
                 \<lambda>(m, it, dst). remaining it]"
proof (induction m it dst rule: record_stream_iterator_next.induct)
  case (1 m it dst)
  show ?case
  proof (cases "it_cursor it < it_stop_at it")
    case False
    with "1.prems" show ?thesis
      by (subst (asm) record_stream_iterator_next.simps) auto
  next
    case True
    with "1.prems" obtain r1 it1 dst1 where
      nr: "record_stream_iterator_next_record m it dst = Inr (r1, it1, dst1)"
      by (subst (asm) record_stream_iterator_next.simps) (auto split: sum.splits)
    note pr = next_record_progress[OF nr True]
    show ?thesis
    proof (cases "0 \<le> r1")
      case r: True
      with True nr "1.prems" have "it' = it1"
        by (subst (asm) record_stream_iterator_next.simps) simp
      with pr show ?thesis by auto
    next
      case r: False
      with True nr "1.prems" have "record_stream_iterator_next m it1 dst1 = Inr (r, it', dst')"
        by (subst (asm) record_stream_iterator_next.simps) simp
      from "1.IH"[OF True nr refl refl r this "1.prems"(2)] pr show ?thesis by auto
    qed
  qed
qed

lemma next_buf_progress:
  assumes "crdb_record_stream_iterator_next_buf m it dst buf = Inr (True, it', g, dst', len)"
  shows "((m, it', dst', buf), (m, it, dst, buf))
     \<in> measures [\<lambda>(m, it, dst, buf). if it_first_record it then 1 else 0,
                 \<lambda>(m, it, dst, buf). remaining it]"
proof -
  from assms obtain r buf' where
    "record_stream_iterator_next m it buf = Inr (r, it', buf')" "0 \<le> r"
    by (auto simp: crdb_record_stream_iterator_next_buf_def split: sum.splits if_splits)
  from next_progress[OF this] show ?thesis by auto
qed

function yielded ::
  "memory \<Rightarrow> iterator \<Rightarrow> byte list \<Rightarrow> byte list
     \<Rightarrow> error + (nat \<times> u32 \<times> byte list) list" where
  "yielded m it dst buf =
     (case crdb_record_stream_iterator_next_buf m it dst buf of
        Inl e \<Rightarrow> Inl e
      | Inr (ok, it', generation, dst', len) \<Rightarrow>
          if \<not> ok then Inr []
          else
            (case yielded m it' dst' buf of
               Inl e \<Rightarrow> Inl e
             | Inr rs \<Rightarrow>
                 Inr ((ptr_diff (it_header it') (it_begin it'), generation, take len dst')
                        # rs)))"
  by pat_completeness auto
termination
proof (relation "measures [\<lambda>(m, it, dst, buf). if it_first_record it then 1 else 0,
                            \<lambda>(m, it, dst, buf). remaining it]")
  show "wf (measures [\<lambda>(m, it, dst, buf). if it_first_record it then 1 else 0,
                            \<lambda>(m, it, dst, buf). remaining it])"
    by simp
next
  fix m it dst buf x ok y it' z generation w dst' len
  assume "crdb_record_stream_iterator_next_buf m it dst buf = Inr x"
    and "(ok, y) = x" and "(it', z) = y" and "(generation, w) = z" and "(dst', len) = w"
    and "\<not> \<not> ok"
  then have "crdb_record_stream_iterator_next_buf m it dst buf
      = Inr (True, it', generation, dst', len)" by auto
  from next_buf_progress[OF this]
  show "((m, it', dst', buf), m, it, dst, buf)
         \<in> measures [\<lambda>(m, it, dst, buf). if it_first_record it then 1 else 0,
                      \<lambda>(m, it, dst, buf). remaining it]" .
qed

declare yielded.simps [simp del]


subsection \<open>One candidate\<close>

text \<open>
  The second half of \<^verbatim>\<open>record_stream_iterator_next_record\<close>, from the test of
  \<^verbatim>\<open>encoded_len\<close> on: what becomes of the candidate of \<open>encoded_len\<close> bytes at
  \<open>encoded_data\<close>.
\<close>

definition decode_candidate :: "memory \<Rightarrow> nat \<Rightarrow> nat \<Rightarrow> byte list \<Rightarrow> error + (int \<times> byte list)" where
  "decode_candidate m encoded_data encoded_len dst =
     (if encoded_len > CRDB_RECORD_STREAM_BUF_LEN then Inr (- 1, dst)
      else
        (case crdb_word_stuff_decode (deref m encoded_data) encoded_len of
           Inl e \<Rightarrow> Inl e
         | Inr r \<Rightarrow>
             (case memcpy dst 0 (bytes_written r) 0 (length (bytes_written r)) of
                Inl e \<Rightarrow> Inl e
              | Inr dst1 \<Rightarrow>
                  (case r of
                     Rejected out \<Rightarrow> Inr (- 1, dst1)
                   | Decoded out \<Rightarrow>
                       if length out < sizeof_record_header then Inr (- 1, dst1)
                       else
                         (case crc_matches dst1 (length out) of
                            Inl e \<Rightarrow> Inl e
                          | Inr (ok, dst2) \<Rightarrow>
                              if \<not> ok then Inr (- 1, dst2)
                              else Inr (int (length out) - int sizeof_record_header, dst2))))))"

lemma next_record_candidate:
  "record_stream_iterator_next_record m it dst =
     (case next_record_start m it of
        Inl e \<Rightarrow> Inl e
      | Inr (Break it1) \<Rightarrow> Inr (- 1, it1\<lparr>it_cursor := it_end it1\<rparr>, dst)
      | Inr (Continue (it1, encoded_data)) \<Rightarrow>
          if it_header it1 \<ge> it_stop_at it1
          then Inr (- 1, it1\<lparr>it_cursor := it_end it1\<rparr>, dst)
          else
            (case crdb_word_stuff_header_find (deref m encoded_data)
                    (ptr_diff (it_end it1) encoded_data) of
               Inl e \<Rightarrow> Inl e
             | Inr encoded_len \<Rightarrow>
                 (case decode_candidate m encoded_data encoded_len dst of
                    Inl e \<Rightarrow> Inl e
                  | Inr (r, dst') \<Rightarrow>
                      Inr (r, it1\<lparr>it_cursor := encoded_data + encoded_len\<rparr>, dst'))))"
  by (simp add: record_stream_iterator_next_record_def decode_candidate_def Let_def
      split: sum.splits iter.splits prod.splits decoded.splits)

lemma decode_total:
  assumes "n \<le> length data"
  shows "\<exists>r. crdb_word_stuff_decode data n = Inr r \<and> length (bytes_written r) \<le> n - 1"
proof -
  let ?s = "\<lparr>c_ret = [], c_src = data, c_src_size = n, c_first_header = True\<rparr>"
  from assms have "c_src_size ?s \<le> length (c_src ?s)" by simp
  from decode_loop_safe[OF this] show ?thesis
    by (simp add: crdb_word_stuff_decode_def)
qed

lemma overwrite_prefix:
  "length w \<le> length d \<Longrightarrow> memcpy d 0 w 0 (length w) = Inr (w @ drop (length w) d)"
  by (simp add: memcpy_ok)

lemma decode_candidate_spec:
  assumes "n \<le> length (deref m a)"
  shows "\<exists>r w. (\<forall>d. CRDB_RECORD_STREAM_BUF_LEN \<le> length d
                  \<longrightarrow> decode_candidate m a n d = Inr (r, w @ drop (length w) d))
             \<and> length w < CRDB_RECORD_STREAM_BUF_LEN \<and> - 1 \<le> r
             \<and> (0 \<le> r \<longrightarrow> length w = nat r + 8)"
proof (cases "n > CRDB_RECORD_STREAM_BUF_LEN")
  case True
  then have "\<forall>d. CRDB_RECORD_STREAM_BUF_LEN \<le> length d
                  \<longrightarrow> decode_candidate m a n d = Inr (- 1, [] @ drop (length ([] :: byte list)) d)"
    by (simp add: decode_candidate_def)
  moreover have "length ([] :: byte list) < CRDB_RECORD_STREAM_BUF_LEN"
    by (simp add: CRDB_RECORD_STREAM_BUF_LEN_def CRDB_RECORD_STREAM_MAX_LEN_def)
  ultimately show ?thesis by (intro exI[of _ "- 1"] exI[of _ "[]"]) simp
next
  case False
  have pos: "0 < CRDB_RECORD_STREAM_BUF_LEN"
    by (simp add: CRDB_RECORD_STREAM_BUF_LEN_def CRDB_RECORD_STREAM_MAX_LEN_def)
  from decode_total[OF assms] obtain res where
    res: "crdb_word_stuff_decode (deref m a) n = Inr res" "length (bytes_written res) \<le> n - 1"
    by blast
  define out where "out = bytes_written res"
  from res(2) False pos have lout: "length out < CRDB_RECORD_STREAM_BUF_LEN"
    by (simp add: out_def)
  have cp: "memcpy d 0 out 0 (length out) = Inr (out @ drop (length out) d)"
    if "CRDB_RECORD_STREAM_BUF_LEN \<le> length d" for d
    using that lout by (intro overwrite_prefix) simp
  let ?fixed = "bytes_of_u32 CRC_INITIAL_VALUE @ drop 4 out"
  consider (rejected) "res = Rejected out"
    | (short) "res = Decoded out" "length out < sizeof_record_header"
    | (long) "res = Decoded out" "sizeof_record_header \<le> length out"
    by (cases res; cases "length out < sizeof_record_header") (auto simp: out_def)
  then show ?thesis
  proof cases
    case rejected
    have "\<forall>d. CRDB_RECORD_STREAM_BUF_LEN \<le> length d
                  \<longrightarrow> decode_candidate m a n d = Inr (- 1, out @ drop (length out) d)"
      using False res(1) cp rejected by (simp add: decode_candidate_def)
    with lout show ?thesis by (intro exI[of _ "- 1"] exI[of _ out]) simp
  next
    case short
    have "\<forall>d. CRDB_RECORD_STREAM_BUF_LEN \<le> length d
                  \<longrightarrow> decode_candidate m a n d = Inr (- 1, out @ drop (length out) d)"
      using False res(1) cp short by (simp add: decode_candidate_def)
    with lout show ?thesis by (intro exI[of _ "- 1"] exI[of _ out]) simp
  next
    case long
    then have l8: "8 \<le> length out" by (simp add: sizeof_record_header_def)
    then have lf: "length ?fixed = length out" by simp
    have cm: "crc_matches (out @ drop (length out) d) (length out)
       = Inr (header_crc out = crc32c_from 0 ?fixed, ?fixed @ drop (length ?fixed) d)"
      if "CRDB_RECORD_STREAM_BUF_LEN \<le> length d" for d
      using crc_matches_prefix[OF long(2), of d] that lout lf by simp
    define r where "r = (if header_crc out = crc32c_from 0 ?fixed
                         then int (length out) - int sizeof_record_header else - 1)"
    have "\<forall>d. CRDB_RECORD_STREAM_BUF_LEN \<le> length d
                  \<longrightarrow> decode_candidate m a n d = Inr (r, ?fixed @ drop (length ?fixed) d)"
      using False res(1) cp long cm by (simp add: decode_candidate_def r_def)
    moreover have "length ?fixed < CRDB_RECORD_STREAM_BUF_LEN" using lf lout by simp
    moreover have "- 1 \<le> r" using long(2) by (simp add: r_def)
    moreover have "0 \<le> r \<longrightarrow> length ?fixed = nat r + 8"
      using l8 lf by (auto simp: r_def sizeof_record_header_def)
    ultimately show ?thesis
      by (intro exI[of _ r] exI[of _ ?fixed]) (intro conjI)
  qed
qed

subsection \<open>The marker ahead of the cursor\<close>

text \<open>
  An iterator over the whole of a memory object: \<open>end\<close> is the end of the object, and
  the cursor and \<open>stop_at\<close> are inside it.
\<close>

definition well_placed :: "memory \<Rightarrow> iterator \<Rightarrow> bool" where
  "well_placed m it \<longleftrightarrow>
     it_end it = m_base m + length (m_bytes m) \<and> m_base m \<le> it_cursor it
   \<and> it_cursor it \<le> it_end it \<and> it_stop_at it \<le> it_end it"

text \<open>\<open>marker_from bs i j\<close>: the first marker of \<open>bs\<close> at or after \<open>i\<close> is at \<open>j\<close>
  (the length of \<open>bs\<close> when there is none).\<close>

definition marker_from :: "byte list \<Rightarrow> nat \<Rightarrow> nat \<Rightarrow> bool" where
  "marker_from bs i j \<longleftrightarrow>
     i \<le> j \<and> j \<le> length bs \<and> (\<forall>q. i \<le> q \<and> q < j \<longrightarrow> \<not> marker_at bs q)
   \<and> (j < length bs \<longrightarrow> marker_at bs j)"

lemma marker_from_unique:
  assumes "marker_from bs i j" "marker_from bs i j'"
  shows "j = j'"
proof (rule ccontr)
  assume "j \<noteq> j'"
  then consider "j < j'" | "j' < j" by linarith
  then show False
  proof cases
    case 1
    with assms(2) have "j < length bs" "\<not> marker_at bs j"
      using assms(1) by (auto simp: marker_from_def)
    with assms(1) show False by (simp add: marker_from_def)
  next
    case 2
    with assms(1) have "j' < length bs" "\<not> marker_at bs j'"
      using assms(2) by (auto simp: marker_from_def)
    with assms(2) show False by (simp add: marker_from_def)
  qed
qed





lemma find_marker:
  assumes "m_base m \<le> p" "p \<le> m_base m + length (m_bytes m)"
  shows "\<exists>k. crdb_word_stuff_header_find (deref m p)
                (ptr_diff (m_base m + length (m_bytes m)) p) = Inr k
           \<and> marker_from (m_bytes m) (p - m_base m) (p - m_base m + k)"
proof -
  define i where "i = p - m_base m"
  define bs where "bs = m_bytes m"
  from assms have d: "deref m p = drop i bs"
    by (simp add: deref_def i_def bs_def)
  from assms have n: "ptr_diff (m_base m + length (m_bytes m)) p = length bs - i"
    by (auto simp: ptr_diff_def i_def bs_def)
  from assms have i: "i \<le> length bs" by (simp add: i_def bs_def)
  have "length bs - i \<le> length (drop i bs)" by simp
  from header_find_spec[OF this] obtain k where kk:
    "crdb_word_stuff_header_find (drop i bs) (length bs - i) = Inr k \<and> k \<le> length bs - i
       \<and> (\<forall>j. j < k \<and> j + 2 \<le> length bs - i \<longrightarrow> \<not> marker_at (drop i bs) j)
       \<and> (k < length bs - i \<longrightarrow> k + 2 \<le> length bs - i \<and> marker_at (drop i bs) k)" ..
  note k = conjunct1[OF kk] conjunct1[OF conjunct2[OF kk]]
    conjunct1[OF conjunct2[OF conjunct2[OF kk]]] conjunct2[OF conjunct2[OF conjunct2[OF kk]]]
  have none: "\<not> marker_at bs q" if q: "i \<le> q" "q < i + k" for q
  proof (cases "q + 2 \<le> length bs")
    case True
    with q have "q - i < k \<and> (q - i) + 2 \<le> length bs - i" by auto
    with k(3) have "\<not> marker_at (drop i bs) (q - i)" by blast
    with q show ?thesis by (simp add: marker_at_drop)
  next
    case False
    then show ?thesis using marker_at_bound[of bs q] by auto
  qed
  have at: "marker_at bs (i + k)" if "i + k < length bs"
    using k(4) that by (simp add: marker_at_drop)
  have "marker_from bs i (i + k)"
    using k(2) i none at by (auto simp: marker_from_def)
  then have "marker_from (m_bytes m) (p - m_base m) (p - m_base m + k)"
    by (simp only: i_def bs_def)
  moreover have "crdb_word_stuff_header_find (deref m p)
                (ptr_diff (m_base m + length (m_bytes m)) p) = Inr k"
    using k(1) by (simp only: d n)
  ultimately show ?thesis by blast
qed

lemma marker_from_ex: "i \<le> length bs \<Longrightarrow> \<exists>j. marker_from bs i j"
  using find_marker[of "\<lparr>m_base = 0, m_bytes = bs\<rparr>" i] by auto

lemma find_marker_at:
  assumes "m_base m \<le> p" "p \<le> m_base m + length (m_bytes m)"
    and "marker_from (m_bytes m) (p - m_base m) j"
  shows "crdb_word_stuff_header_find (deref m p)
           (ptr_diff (m_base m + length (m_bytes m)) p) = Inr (j - (p - m_base m))"
proof -
  from find_marker[OF assms(1,2)] obtain k where
    k: "crdb_word_stuff_header_find (deref m p)
                (ptr_diff (m_base m + length (m_bytes m)) p) = Inr k"
       "marker_from (m_bytes m) (p - m_base m) (p - m_base m + k)" by blast
  from marker_from_unique[OF assms(3) k(2)] have "k = j - (p - m_base m)" by simp
  with k(1) show ?thesis by simp
qed

lemma next_record_at_end:
  assumes wp: "well_placed m it" and nf: "\<not> it_first_record it"
    and j: "marker_from (m_bytes m) (it_cursor it - m_base m) j"
    and stop: "it_stop_at it \<le> m_base m + j"
  shows "record_stream_iterator_next_record m it d
       = Inr (- 1, it\<lparr>it_cursor := it_end it\<rparr>, d)"
proof -
  from wp have e: "it_end it = m_base m + length (m_bytes m)"
    and c: "m_base m \<le> it_cursor it" "it_cursor it \<le> m_base m + length (m_bytes m)"
    by (simp_all add: well_placed_def)
  from j have "it_cursor it - m_base m \<le> j" by (simp add: marker_from_def)
  with c have fh: "it_cursor it + (j - (it_cursor it - m_base m)) = m_base m + j" by simp
  have "next_record_start m it = Inr (Break it)"
    using nf stop find_marker_at[OF c j] fh
    by (simp add: next_record_start_def e Let_def)
  then show ?thesis by (simp add: next_record_candidate)
qed

lemma next_record_at_marker:
  assumes wp: "well_placed m it" and nf: "\<not> it_first_record it"
    and j: "marker_from (m_bytes m) (it_cursor it - m_base m) j"
    and stop: "m_base m + j < it_stop_at it"
    and j2: "marker_from (m_bytes m) (j + 2) j2"
  shows "record_stream_iterator_next_record m it d
       = (case decode_candidate m (m_base m + j + 2) (j2 - (j + 2)) d of
            Inl e \<Rightarrow> Inl e
          | Inr (r, d') \<Rightarrow> Inr (r, it\<lparr>it_header := m_base m + j, it_cursor := m_base m + j2\<rparr>, d'))"
proof -
  from wp have e: "it_end it = m_base m + length (m_bytes m)"
    and c: "m_base m \<le> it_cursor it" "it_cursor it \<le> m_base m + length (m_bytes m)"
    and s: "it_stop_at it \<le> m_base m + length (m_bytes m)"
    by (simp_all add: well_placed_def)
  from j have "it_cursor it - m_base m \<le> j" by (simp add: marker_from_def)
  with c have fh: "it_cursor it + (j - (it_cursor it - m_base m)) = m_base m + j" by simp
  from j2 have b2: "j + 2 \<le> j2" "j2 \<le> length (m_bytes m)" by (simp_all add: marker_from_def)
  have st: "next_record_start m it
      = Inr (Continue (it\<lparr>it_header := m_base m + j\<rparr>, m_base m + j + 2))"
    using nf stop find_marker_at[OF c j] fh b2
    by (simp add: next_record_start_def e Let_def CRDB_WORD_STUFF_HEADER_SIZE_def)
  have "marker_from (m_bytes m) (m_base m + j + 2 - m_base m) j2" using j2 by simp
  from find_marker_at[OF _ _ this] b2
  have f2: "crdb_word_stuff_header_find (deref m (m_base m + j + 2))
           (ptr_diff (m_base m + length (m_bytes m)) (m_base m + j + 2)) = Inr (j2 - (j + 2))"
    by simp
  have "m_base m + j + 2 + (j2 - (j + 2)) = m_base m + j2" using b2 by simp
  then show ?thesis
    using stop f2 by (simp add: next_record_candidate st e split: sum.splits prod.splits)
qed

lemma next_record_first:
  assumes wp: "well_placed m it" and f: "it_first_record it"
    and stop: "it_cursor it < it_stop_at it"
    and j2: "marker_from (m_bytes m) (it_cursor it - m_base m) j2"
  shows "record_stream_iterator_next_record m it d
       = (case decode_candidate m (it_cursor it) (j2 - (it_cursor it - m_base m)) d of
            Inl e \<Rightarrow> Inl e
          | Inr (r, d') \<Rightarrow>
              Inr (r, it\<lparr>it_first_record := False, it_header := it_cursor it,
                         it_cursor := m_base m + j2\<rparr>, d'))"
proof -
  from wp have e: "it_end it = m_base m + length (m_bytes m)"
    and c: "m_base m \<le> it_cursor it" "it_cursor it \<le> m_base m + length (m_bytes m)"
    by (simp_all add: well_placed_def)
  from j2 have "it_cursor it - m_base m \<le> j2" by (simp add: marker_from_def)
  with c have fh: "it_cursor it + (j2 - (it_cursor it - m_base m)) = m_base m + j2" by simp
  have st: "next_record_start m it
      = Inr (Continue (it\<lparr>it_first_record := False, it_header := it_cursor it\<rparr>, it_cursor it))"
    using f by (simp add: next_record_start_def)
  show ?thesis
    using stop find_marker_at[OF c j2] fh
    by (simp add: next_record_candidate st e split: sum.splits prod.splits)
qed

subsection \<open>The calls return, whatever the buffers hold\<close>

lemma next_record_spec:
  assumes wp: "well_placed m it" and lt: "it_cursor it < it_stop_at it"
  shows "\<exists>r it' w. (\<forall>d. CRDB_RECORD_STREAM_BUF_LEN \<le> length d
                  \<longrightarrow> record_stream_iterator_next_record m it d
                        = Inr (r, it', w @ drop (length w) d))
             \<and> length w < CRDB_RECORD_STREAM_BUF_LEN \<and> - 1 \<le> r
             \<and> (0 \<le> r \<longrightarrow> length w = nat r + 8)
             \<and> well_placed m it' \<and> it_stop_at it' = it_stop_at it"
proof -
  let ?b = "m_base m"
  let ?bs = "m_bytes m"
  from wp have e: "it_end it = ?b + length ?bs"
    and c: "?b \<le> it_cursor it" "it_cursor it \<le> ?b + length ?bs"
    and s: "it_stop_at it \<le> ?b + length ?bs"
    by (simp_all add: well_placed_def)
  have pos: "length ([] :: byte list) < CRDB_RECORD_STREAM_BUF_LEN"
    by (simp add: CRDB_RECORD_STREAM_BUF_LEN_def CRDB_RECORD_STREAM_MAX_LEN_def)
  have candidate: ?thesis
    if eq: "\<And>d. record_stream_iterator_next_record m it d
              = (case decode_candidate m (?b + i) (j2 - i) d of
                   Inl e \<Rightarrow> Inl e | Inr (r, d') \<Rightarrow> Inr (r, it1, d'))"
      and i: "i \<le> j2" "j2 \<le> length ?bs"
      and it1: "it_end it1 = it_end it" "it_cursor it1 = ?b + j2" "it_stop_at it1 = it_stop_at it"
    for i j2 it1
  proof -
    from i have "deref m (?b + i) = drop i ?bs" by (simp add: deref_def)
    with i have "j2 - i \<le> length (deref m (?b + i))" by simp
    from decode_candidate_spec[OF this] obtain r w where rw:
      "(\<forall>d. CRDB_RECORD_STREAM_BUF_LEN \<le> length d
                  \<longrightarrow> decode_candidate m (?b + i) (j2 - i) d = Inr (r, w @ drop (length w) d))
             \<and> length w < CRDB_RECORD_STREAM_BUF_LEN \<and> - 1 \<le> r
             \<and> (0 \<le> r \<longrightarrow> length w = nat r + 8)" by blast
    have "\<forall>d. CRDB_RECORD_STREAM_BUF_LEN \<le> length d
                  \<longrightarrow> record_stream_iterator_next_record m it d
                        = Inr (r, it1, w @ drop (length w) d)"
      using rw by (simp add: eq)
    moreover have "well_placed m it1"
      using it1 i e s by (simp add: well_placed_def)
    ultimately show ?thesis using rw it1(3) by blast
  qed
  have i0: "it_cursor it - ?b \<le> length ?bs" using c by simp
  show ?thesis
  proof (cases "it_first_record it")
    case True
    from marker_from_ex[OF i0] obtain j2 where j2: "marker_from ?bs (it_cursor it - ?b) j2" ..
    then have b2: "it_cursor it - ?b \<le> j2" "j2 \<le> length ?bs" by (simp_all add: marker_from_def)
    show ?thesis
    proof (rule candidate[OF _ b2])
      show "record_stream_iterator_next_record m it d
          = (case decode_candidate m (?b + (it_cursor it - ?b)) (j2 - (it_cursor it - ?b)) d of
               Inl e \<Rightarrow> Inl e
             | Inr (r, d') \<Rightarrow>
                 Inr (r, it\<lparr>it_first_record := False, it_header := it_cursor it,
                            it_cursor := ?b + j2\<rparr>, d'))" for d
        using next_record_first[OF wp True lt j2, of d] c
        by simp
    qed simp_all
  next
    case False
    from marker_from_ex[OF i0] obtain j where j: "marker_from ?bs (it_cursor it - ?b) j" ..
    show ?thesis
    proof (cases "it_stop_at it \<le> ?b + j")
      case True
      have "\<forall>d. CRDB_RECORD_STREAM_BUF_LEN \<le> length d
                  \<longrightarrow> record_stream_iterator_next_record m it d
                        = Inr (- 1, it\<lparr>it_cursor := it_end it\<rparr>, [] @ drop (length ([] :: byte list)) d)"
        using next_record_at_end[OF wp False j True]
        by simp
      moreover have "well_placed m (it\<lparr>it_cursor := it_end it\<rparr>)"
        using wp by (simp add: well_placed_def)
      ultimately show ?thesis using pos
        by (intro exI[of _ "- 1"] exI[of _ "it\<lparr>it_cursor := it_end it\<rparr>"] exI[of _ "[]"]) simp
    next
      case stop: False
      with s have "j < length ?bs" by simp
      with j have "marker_at ?bs j" by (simp add: marker_from_def)
      from marker_at_bound[OF this] have "j + 2 \<le> length ?bs" .
      from marker_from_ex[OF this] obtain j2 where j2: "marker_from ?bs (j + 2) j2" ..
      then have b2: "j + 2 \<le> j2" "j2 \<le> length ?bs" by (simp_all add: marker_from_def)
      from stop have stop': "m_base m + j < it_stop_at it" by simp
      show ?thesis
      proof (rule candidate[OF _ b2])
        show "record_stream_iterator_next_record m it d
            = (case decode_candidate m (?b + (j + 2)) (j2 - (j + 2)) d of
                 Inl e \<Rightarrow> Inl e
               | Inr (r, d') \<Rightarrow>
                   Inr (r, it\<lparr>it_header := ?b + j, it_cursor := ?b + j2\<rparr>, d'))" for d
          using next_record_at_marker[OF wp False j stop'
              j2, of d]
          by (simp add: add.assoc)
      qed simp_all
    qed
  qed
qed

lemma overlay:
  "w2 @ drop (length w2) (w1 @ drop (length w1) d)
     = (w2 @ drop (length w2) w1) @ drop (length (w2 @ drop (length w2) w1)) d"
proof -
  have "length w2 - length w1 + length w1 = length w2 + (length w1 - length w2)" by simp
  then show ?thesis by simp
qed

lemma next_spec_aux:
  "well_placed m it \<Longrightarrow> CRDB_RECORD_STREAM_BUF_LEN \<le> length (d0 :: byte list) \<Longrightarrow>
   \<exists>r it' w. (\<forall>d. CRDB_RECORD_STREAM_BUF_LEN \<le> length d
                  \<longrightarrow> record_stream_iterator_next m it d = Inr (r, it', w @ drop (length w) d))
             \<and> length w < CRDB_RECORD_STREAM_BUF_LEN \<and> - 1 \<le> r
             \<and> (0 \<le> r \<longrightarrow> nat r + 8 \<le> length w \<and> well_placed m it')"
proof (induction m it d0 rule: record_stream_iterator_next.induct)
  case (1 m it d0)
  have pos: "length ([] :: byte list) < CRDB_RECORD_STREAM_BUF_LEN"
    by (simp add: CRDB_RECORD_STREAM_BUF_LEN_def CRDB_RECORD_STREAM_MAX_LEN_def)
  show ?case
  proof (cases "it_cursor it < it_stop_at it")
    case False
    then have "\<forall>d. CRDB_RECORD_STREAM_BUF_LEN \<le> length d
        \<longrightarrow> record_stream_iterator_next m it d
            = Inr (- 1, it\<lparr>it_cursor := 0, it_end := 0\<rparr>, [] @ drop (length ([] :: byte list)) d)"
      by (subst record_stream_iterator_next.simps) simp
    with pos show ?thesis
      by (intro exI[of _ "- 1"] exI[of _ "it\<lparr>it_cursor := 0, it_end := 0\<rparr>"] exI[of _ "[]"])
         simp
  next
    case True
    from next_record_spec[OF "1.prems"(1) True] obtain r1 it1 w1 where
      nr: "\<forall>d. CRDB_RECORD_STREAM_BUF_LEN \<le> length d
                  \<longrightarrow> record_stream_iterator_next_record m it d
                        = Inr (r1, it1, w1 @ drop (length w1) d)"
      and w1: "length w1 < CRDB_RECORD_STREAM_BUF_LEN" "- 1 \<le> r1"
        "0 \<le> r1 \<longrightarrow> length w1 = nat r1 + 8"
      and wp1: "well_placed m it1" by blast
    show ?thesis
    proof (cases "0 \<le> r1")
      case r: True
      have "\<forall>d. CRDB_RECORD_STREAM_BUF_LEN \<le> length d
          \<longrightarrow> record_stream_iterator_next m it d = Inr (r1, it1, w1 @ drop (length w1) d)"
        using True nr r by (subst record_stream_iterator_next.simps) simp
      with w1 wp1 r show ?thesis by (intro exI[of _ r1] exI[of _ it1] exI[of _ w1]) simp
    next
      case r: False
      from nr "1.prems"(2) have nr0: "record_stream_iterator_next_record m it d0
                        = Inr (r1, it1, w1 @ drop (length w1) d0)" by simp
      have l0: "CRDB_RECORD_STREAM_BUF_LEN \<le> length (w1 @ drop (length w1) d0)"
        using w1(1) "1.prems"(2) by simp
      from "1.IH"[OF True nr0 refl refl r wp1 l0] obtain r2 it2 w2 where
        n2: "\<forall>d. CRDB_RECORD_STREAM_BUF_LEN \<le> length d
                  \<longrightarrow> record_stream_iterator_next m it1 d = Inr (r2, it2, w2 @ drop (length w2) d)"
        and w2: "length w2 < CRDB_RECORD_STREAM_BUF_LEN" "- 1 \<le> r2"
          "0 \<le> r2 \<longrightarrow> nat r2 + 8 \<le> length w2 \<and> well_placed m it2" by blast
      let ?w = "w2 @ drop (length w2) w1"
      have "record_stream_iterator_next m it d = Inr (r2, it2, ?w @ drop (length ?w) d)"
        if d: "CRDB_RECORD_STREAM_BUF_LEN \<le> length d" for d
      proof -
        from nr d have a: "record_stream_iterator_next_record m it d
                        = Inr (r1, it1, w1 @ drop (length w1) d)" by simp
        have "CRDB_RECORD_STREAM_BUF_LEN \<le> length (w1 @ drop (length w1) d)"
          using w1(1) d by simp
        with n2 have "record_stream_iterator_next m it1 (w1 @ drop (length w1) d)
            = Inr (r2, it2, w2 @ drop (length w2) (w1 @ drop (length w1) d))" by simp
        then have "record_stream_iterator_next m it d
            = Inr (r2, it2, w2 @ drop (length w2) (w1 @ drop (length w1) d))"
          using True a r by (subst record_stream_iterator_next.simps) simp
        then show ?thesis by (simp only: overlay)
      qed
      moreover have "length ?w < CRDB_RECORD_STREAM_BUF_LEN" using w1(1) w2(1) by simp
      moreover have "0 \<le> r2 \<longrightarrow> nat r2 + 8 \<le> length ?w \<and> well_placed m it2"
        using w2(3) by auto
      ultimately show ?thesis using w2(2)
        by (intro exI[of _ r2] exI[of _ it2] exI[of _ ?w]) simp
    qed
  qed
qed

lemma next_spec:
  assumes "well_placed m it"
  shows "\<exists>r it' w. (\<forall>d. CRDB_RECORD_STREAM_BUF_LEN \<le> length d
                  \<longrightarrow> record_stream_iterator_next m it d = Inr (r, it', w @ drop (length w) d))
             \<and> length w < CRDB_RECORD_STREAM_BUF_LEN \<and> - 1 \<le> r
             \<and> (0 \<le> r \<longrightarrow> nat r + 8 \<le> length w \<and> well_placed m it')"
  using next_spec_aux[OF assms, of "replicate CRDB_RECORD_STREAM_BUF_LEN 0"] by simp

text \<open>
  Claim C4.  For every memory and every well-placed iterator (every state between the
  initialisation and the call that signals the end, whatever \<^verbatim>\<open>stop_at\<close> and
  \<^verbatim>\<open>locate_at\<close> did), \<^verbatim>\<open>record_stream_iterator_next\<close> returns: no assertion fails and no
  read leaves the memory object.  And whatever the state of the iterator, a call that
  returns reports either the end of the stream (\<open>-1\<close>) or a record, which comes from a
  region of the stream that the codec decodes to an envelope whose stored \<open>crc\<close> field is
  the CRC32C of the envelope with that field set to \<open>0xFFFFFFFF\<close>, with the generation
  and the payload of this envelope.  Regions that do not decode or do not verify are
  skipped and never reported.
\<close>

theorem next_yields_verified:
  "(well_placed m it \<and> CRDB_RECORD_STREAM_BUF_LEN \<le> length dst
      \<longrightarrow> (\<exists>r it' dst'. record_stream_iterator_next m it dst = Inr (r, it', dst')))
   \<and> (record_stream_iterator_next m it dst = Inr (r, it', dst') \<longrightarrow>
        (r = - 1 \<and> it_cursor it' = 0 \<and> it_end it' = 0)
      \<or> (0 \<le> r \<and> (\<exists>start len envelope.
             (start = it_header it' \<or> start = it_header it' + 2) \<and> start + len = it_cursor it'
           \<and> crdb_word_stuff_decode (deref m start) len = Inr (Decoded envelope)
           \<and> length envelope = nat r + sizeof_record_header
           \<and> crdb_crc32c (bytes_of_u32 CRC_INITIAL_VALUE @ drop 4 envelope) (length envelope)
                = Inr (header_crc envelope)
           \<and> header_generation dst' = header_generation envelope
           \<and> take (nat r) (record_data dst') = record_data envelope)))"
proof (intro conjI impI)
  assume a: "well_placed m it \<and> CRDB_RECORD_STREAM_BUF_LEN \<le> length dst"
  then have "well_placed m it" ..
  from next_spec[OF this] a
  show "\<exists>r it' dst'. record_stream_iterator_next m it dst = Inr (r, it', dst')" by blast
next
  assume "record_stream_iterator_next m it dst = Inr (r, it', dst')"
  then show "(r = - 1 \<and> it_cursor it' = 0 \<and> it_end it' = 0)
      \<or> (0 \<le> r \<and> (\<exists>start len envelope.
             (start = it_header it' \<or> start = it_header it' + 2) \<and> start + len = it_cursor it'
           \<and> crdb_word_stuff_decode (deref m start) len = Inr (Decoded envelope)
           \<and> length envelope = nat r + sizeof_record_header
           \<and> crdb_crc32c (bytes_of_u32 CRC_INITIAL_VALUE @ drop 4 envelope) (length envelope)
                = Inr (header_crc envelope)
           \<and> header_generation dst' = header_generation envelope
           \<and> take (nat r) (record_data dst') = record_data envelope))"
    by (rule next_verified)
qed

theorem next_yields_verified_witness:
  "well_placed example_stream (crdb_record_stream_iterator_init_buf 4096 13)
   \<and> CRDB_RECORD_STREAM_BUF_LEN \<le> length (replicate 1032 (0 :: byte))
   \<and> record_stream_iterator_next example_stream (crdb_record_stream_iterator_init_buf 4096 13)
       (replicate 1032 0)
     = Inr (2, \<lparr>it_cursor = 4107, it_end = 4109, it_stop_at = 4109, it_begin = 4096,
                it_header = 4096, it_mapped = 0, it_map_size = 0,
                it_first_record = False, it_first_nonzero = 4096\<rparr>,
            [0xFF, 0xFF, 0xFF, 0xFF, 7, 0, 0, 0, 0x68, 0x69] @ replicate 1022 0)
   \<and> (\<exists>start len envelope.
         crdb_word_stuff_decode (deref example_stream start) len = Inr (Decoded envelope)
       \<and> length envelope = nat 2 + sizeof_record_header
       \<and> crdb_crc32c (bytes_of_u32 CRC_INITIAL_VALUE @ drop 4 envelope) (length envelope)
            = Inr (header_crc envelope)
       \<and> header_generation ([0xFF, 0xFF, 0xFF, 0xFF, 7, 0, 0, 0, 0x68, 0x69] @ replicate 1022 0)
            = header_generation envelope
       \<and> take (nat 2) (record_data ([0xFF, 0xFF, 0xFF, 0xFF, 7, 0, 0, 0, 0x68, 0x69]
                                        @ replicate 1022 0))
            = record_data envelope)"
proof -
  have wp: "well_placed example_stream (crdb_record_stream_iterator_init_buf 4096 13)"
    by (simp add: well_placed_def example_stream_def crdb_record_stream_iterator_init_buf_def)
  have len: "CRDB_RECORD_STREAM_BUF_LEN \<le> length (replicate 1032 (0 :: byte))"
    by (simp add: CRDB_RECORD_STREAM_BUF_LEN_def CRDB_RECORD_STREAM_MAX_LEN_def)
  note t = next_yields_verified[of example_stream "crdb_record_stream_iterator_init_buf 4096 13"
      "replicate 1032 0" 2
      "\<lparr>it_cursor = 4107, it_end = 4109, it_stop_at = 4109, it_begin = 4096,
        it_header = 4096, it_mapped = 0, it_map_size = 0,
        it_first_record = False, it_first_nonzero = 4096\<rparr>"
      "[0xFF, 0xFF, 0xFF, 0xFF, 7, 0, 0, 0, 0x68, 0x69] @ replicate 1022 0"]
  from conjunct2[OF t] example_next
  have "\<exists>start len envelope.
         crdb_word_stuff_decode (deref example_stream start) len = Inr (Decoded envelope)
       \<and> length envelope = nat 2 + sizeof_record_header
       \<and> crdb_crc32c (bytes_of_u32 CRC_INITIAL_VALUE @ drop 4 envelope) (length envelope)
            = Inr (header_crc envelope)
       \<and> header_generation ([0xFF, 0xFF, 0xFF, 0xFF, 7, 0, 0, 0, 0x68, 0x69] @ replicate 1022 0)
            = header_generation envelope
       \<and> take (nat 2) (record_data ([0xFF, 0xFF, 0xFF, 0xFF, 7, 0, 0, 0, 0x68, 0x69]
                                        @ replicate 1022 0))
            = record_data envelope"
    by auto
  with wp len example_next show ?thesis by (intro conjI)
qed



text \<open>The records that a well-placed iterator yields do not depend on what the buffers
  of the caller hold.\<close>

definition recs :: "memory \<Rightarrow> iterator \<Rightarrow> (nat \<times> u32 \<times> byte list) list" where
  "recs m it =
     (case yielded m it (replicate CRDB_RECORD_STREAM_BUF_LEN 0)
             (replicate CRDB_RECORD_STREAM_BUF_LEN 0) of
        Inl e \<Rightarrow> [] | Inr rs \<Rightarrow> rs)"




lemma recs_cong:
  assumes "it_cursor it1 < it_stop_at it1" "it_cursor it2 < it_stop_at it2"
    and "\<And>d. record_stream_iterator_next_record m it1 d
            = record_stream_iterator_next_record m it2 d"
  shows "recs m it1 = recs m it2"
proof -
  have "record_stream_iterator_next m it1 d = record_stream_iterator_next m it2 d" for d
    using assms by (subst record_stream_iterator_next.simps,
        subst (2) record_stream_iterator_next.simps) simp
  then have "crdb_record_stream_iterator_next_buf m it1 d b
      = crdb_record_stream_iterator_next_buf m it2 d b" for d b
    by (simp add: crdb_record_stream_iterator_next_buf_def)
  then have "yielded m it1 d b = yielded m it2 d b" for d b
    by (subst yielded.simps, subst (2) yielded.simps) simp
  then show ?thesis by (simp add: recs_def)
qed

subsection \<open>The records of one candidate\<close>









subsection \<open>Splitting the iteration at an address\<close>


subsection \<open>Splitting a stream at an offset\<close>








end
